theory Spec2Isabelle
  imports Main "HOL-Library.Multiset" "HOL-Library.Word"
begin

unbundle bit_operations_syntax

section \<open>Scheduler: packages/runtime-core/src/scheduler.ts\<close>

text \<open>
  A \<open>SchedulerJob\<close> is a function object carrying optional fields. The function object's
  identity is \<open>job_name\<close>; \<open>job_id\<close> is \<open>None\<close> when \<open>job.id == null\<close>;
  \<open>job_active\<close> is \<open>False\<close> exactly when \<open>job.active === false\<close>.
\<close>

record job =
  job_name :: nat
  job_id :: "nat option"
  job_pre :: bool
  job_active :: bool
  job_allowRecurse :: bool

text \<open>
  The numbers the comparator computes with: \<open>getId\<close> yields a finite id or \<open>Infinity\<close>,
  and \<open>Infinity - Infinity\<close> is \<open>NaN\<close>.
\<close>

datatype jsnum = Num int | PosInf | NegInf | NaN

fun js_sub :: "jsnum \<Rightarrow> jsnum \<Rightarrow> jsnum" where
  "js_sub NaN _ = NaN"
| "js_sub _ NaN = NaN"
| "js_sub (Num a) (Num b) = Num (a - b)"
| "js_sub (Num a) PosInf = NegInf"
| "js_sub (Num a) NegInf = PosInf"
| "js_sub PosInf (Num b) = PosInf"
| "js_sub PosInf PosInf = NaN"
| "js_sub PosInf NegInf = PosInf"
| "js_sub NegInf (Num b) = NegInf"
| "js_sub NegInf NegInf = NaN"
| "js_sub NegInf PosInf = NegInf"

fun js_less :: "jsnum \<Rightarrow> jsnum \<Rightarrow> bool" where
  "js_less NaN _ = False"
| "js_less _ NaN = False"
| "js_less (Num a) (Num b) = (a < b)"
| "js_less (Num a) PosInf = True"
| "js_less (Num a) NegInf = False"
| "js_less PosInf _ = False"
| "js_less NegInf NegInf = False"
| "js_less NegInf _ = True"

definition getId :: "job \<Rightarrow> jsnum" where
  "getId j = (case job_id j of None \<Rightarrow> PosInf | Some i \<Rightarrow> Num (int i))"

definition comparator :: "job \<Rightarrow> job \<Rightarrow> jsnum" where
  "comparator a b =
     (let diff = js_sub (getId a) (getId b) in
      if diff = Num 0 then
        (if job_pre a \<and> \<not> job_pre b then Num (- 1)
         else if job_pre b \<and> \<not> job_pre a then Num 1
         else diff)
      else diff)"

text \<open>
  \<open>Array.prototype.sort(comparefn)\<close>: a stable sort in which a comparator result of
  \<open>NaN\<close> counts as \<open>+0\<close>. \<open>sorts_before cmp x y\<close> says that the comparator does not put
  \<open>x\<close> after \<open>y\<close>.
\<close>

definition sorts_before :: "('a \<Rightarrow> 'a \<Rightarrow> jsnum) \<Rightarrow> 'a \<Rightarrow> 'a \<Rightarrow> bool" where
  "sorts_before cmp x y = (\<not> js_less (Num 0) (cmp x y))"

fun insert_stable :: "('a \<Rightarrow> 'a \<Rightarrow> jsnum) \<Rightarrow> 'a \<Rightarrow> 'a list \<Rightarrow> 'a list" where
  "insert_stable cmp x [] = [x]"
| "insert_stable cmp x (y # ys) =
     (if sorts_before cmp x y then x # y # ys else y # insert_stable cmp x ys)"

definition js_sort :: "('a \<Rightarrow> 'a \<Rightarrow> jsnum) \<Rightarrow> 'a list \<Rightarrow> 'a list" where
  "js_sort cmp xs = foldr (insert_stable cmp) xs []"

text \<open>
  The module state. \<open>ran\<close> is the log of the jobs that the flush loop has invoked, oldest
  first; it stands for the observable effect of \<open>callWithErrorHandling(job, ...)\<close>.
\<close>

record sched =
  isFlushing :: bool
  isFlushPending :: bool
  queue :: "job list"
  flushIndex :: nat
  ran :: "job list"

definition sched_init :: sched where
  "sched_init = \<lparr>isFlushing = False, isFlushPending = False, queue = [], flushIndex = 0, ran = []\<rparr>"

text \<open>What a job does when it is invoked, as far as the scheduler is concerned.\<close>

datatype call = QueueJob job | InvalidateJob job

text \<open>
  \<open>findInsertionIndex\<close>: binary search in \<open>queue[flushIndex + 1 .. length)\<close>. The source
  computes \<open>(start + end) >>> 1\<close>; array lengths are below \<open>2^31\<close>, where this is the
  integer half.
\<close>

function bsearch :: "job list \<Rightarrow> nat \<Rightarrow> nat \<Rightarrow> nat \<Rightarrow> nat" where
  "bsearch q i start end =
     (if start < end then
        (let middle = (start + end) div 2;
             middleJob = q ! middle;
             middleJobId = getId middleJob
         in if js_less middleJobId (Num (int i)) \<or> (middleJobId = Num (int i) \<and> job_pre middleJob)
            then bsearch q i (middle + 1) end
            else bsearch q i start middle)
      else start)"
  by pat_completeness auto
termination
  by (relation "measure (\<lambda>(q, i, start, end). end - start)") auto

declare bsearch.simps [simp del]

definition findInsertionIndex :: "sched \<Rightarrow> nat \<Rightarrow> nat" where
  "findInsertionIndex s i = bsearch (queue s) i (flushIndex s + 1) (length (queue s))"

text \<open>\<open>queue.includes(job, fromIndex)\<close> and \<open>queue.indexOf(job)\<close> (\<open>None\<close> is \<open>-1\<close>).\<close>

definition includes_from :: "'a list \<Rightarrow> 'a \<Rightarrow> nat \<Rightarrow> bool" where
  "includes_from xs x fromIndex = (x \<in> set (drop fromIndex xs))"

fun indexOf :: "'a list \<Rightarrow> 'a \<Rightarrow> nat option" where
  "indexOf [] x = None"
| "indexOf (y # ys) x = (if y = x then Some 0 else map_option Suc (indexOf ys x))"

text \<open>\<open>queue.splice(i, 0, job)\<close>: an index beyond the end appends.\<close>

definition splice_in :: "nat \<Rightarrow> 'a \<Rightarrow> 'a list \<Rightarrow> 'a list" where
  "splice_in i x xs = take i xs @ x # drop i xs"

text \<open>\<open>queue.splice(i, 1)\<close>.\<close>

definition splice_out :: "nat \<Rightarrow> 'a list \<Rightarrow> 'a list" where
  "splice_out i xs = take i xs @ drop (Suc i) xs"

text \<open>
  \<open>queueFlush\<close> marks a flush as pending; the flush itself runs later, as a microtask
  (\<open>resolvedPromise.then(flushJobs)\<close>).
\<close>

definition queueFlush :: "sched \<Rightarrow> sched" where
  "queueFlush s = (if \<not> isFlushing s \<and> \<not> isFlushPending s then s\<lparr>isFlushPending := True\<rparr> else s)"

definition queueJob :: "job \<Rightarrow> sched \<Rightarrow> sched" where
  "queueJob j s =
     (if queue s = [] \<or>
         \<not> includes_from (queue s) j
             (if isFlushing s \<and> job_allowRecurse j then flushIndex s + 1 else flushIndex s)
      then queueFlush
             (s\<lparr>queue := (case job_id j of
                            None \<Rightarrow> queue s @ [j]
                          | Some i \<Rightarrow> splice_in (findInsertionIndex s i) j (queue s))\<rparr>)
      else s)"

definition invalidateJob :: "job \<Rightarrow> sched \<Rightarrow> sched" where
  "invalidateJob j s =
     (case indexOf (queue s) j of
        None \<Rightarrow> s
      | Some i \<Rightarrow> if i > flushIndex s then s\<lparr>queue := splice_out i (queue s)\<rparr> else s)"

fun run_call :: "call \<Rightarrow> sched \<Rightarrow> sched" where
  "run_call (QueueJob j) s = queueJob j s"
| "run_call (InvalidateJob j) s = invalidateJob j s"

definition run_calls :: "call list \<Rightarrow> sched \<Rightarrow> sched" where
  "run_calls cs s = fold run_call cs s"

text \<open>
  The loop of \<open>flushJobs\<close>, \<open>for (flushIndex = 0; flushIndex < queue.length; flushIndex++)\<close>,
  from the current \<open>flushIndex\<close> on. Jobs may queue further jobs, so the loop need not end:
  it is given fuel, and \<open>None\<close> means the fuel ran out. The development-only
  \<open>checkRecursiveUpdates\<close> is left out (production build).
\<close>

fun flush_loop :: "(job \<Rightarrow> call list) \<Rightarrow> nat \<Rightarrow> sched \<Rightarrow> sched option" where
  "flush_loop body 0 s = (if flushIndex s < length (queue s) then None else Some s)"
| "flush_loop body (Suc n) s =
     (if flushIndex s < length (queue s) then
        (let j = queue s ! flushIndex s;
             s1 = (if job_active j then run_calls (body j) (s\<lparr>ran := ran s @ [j]\<rparr>) else s)
         in flush_loop body n (s1\<lparr>flushIndex := flushIndex s1 + 1\<rparr>))
      else Some s)"

text \<open>
  \<open>flushJobs\<close>. In the \<open>finally\<close> block the post-flush callbacks are flushed, which this
  model does not cover: no modelled call fills \<open>pendingPostFlushCbs\<close>, so after
  \<open>queue.length = 0\<close> both queues are empty and the function does not call itself again.
\<close>

definition flushJobs :: "(job \<Rightarrow> call list) \<Rightarrow> nat \<Rightarrow> sched \<Rightarrow> sched option" where
  "flushJobs body fuel s =
     (case flush_loop body fuel
             (s\<lparr>isFlushPending := False, isFlushing := True,
                queue := js_sort comparator (queue s), flushIndex := 0\<rparr>) of
        None \<Rightarrow> None
      | Some s' \<Rightarrow> Some (s'\<lparr>flushIndex := 0, queue := [], isFlushing := False\<rparr>))"






text \<open>Two jobs for concrete runs: a child component's update and its parent's.\<close>

definition child_job :: job where
  "child_job = \<lparr>job_name = 1, job_id = Some 5, job_pre = False, job_active = True,
     job_allowRecurse = False\<rparr>"

definition parent_job :: job where
  "parent_job = \<lparr>job_name = 2, job_id = Some 2, job_pre = False, job_active = True,
     job_allowRecurse = False\<rparr>"


text \<open>
  A flush in progress: the child's update, at index 0, is the job being run. And a queue
  waiting for its flush.
\<close>

definition mid_flush :: sched where
  "mid_flush = \<lparr>isFlushing = True, isFlushPending = False, queue = [child_job], flushIndex = 0,
     ran = [child_job]\<rparr>"

definition two_pending :: sched where
  "two_pending = \<lparr>isFlushing = False, isFlushPending = True, queue = [parent_job, child_job],
     flushIndex = 0, ran = []\<rparr>"




text \<open>A job that calls nothing of the scheduler, and the ids of the jobs run so far.\<close>

definition no_calls :: "job \<Rightarrow> call list" where
  "no_calls j = []"


section \<open>KeepAlive: packages/runtime-core/src/components/KeepAlive.ts\<close>

text \<open>
  VNodes are objects that the cache, \<open>current\<close> and the renderer share and that KeepAlive
  mutates, so they live in a store and are named by references. A component descriptor
  (\<open>vnode.type\<close>) is an object too, named by a number.
\<close>

type_synonym ref = nat
type_synonym comp = nat

record vnode =
  vn_type :: comp
  vn_key :: "nat option"
  shapeFlag :: "32 word"
  vn_el :: "nat option"
  vn_component :: "nat option"
  ssContent :: "ref option"

text \<open>\<open>CacheKey = string | number | symbol | ConcreteComponent\<close>.\<close>

datatype cache_key = ByKey nat | ByComp comp

text \<open>The shape flags this file tests or sets (\<open>ShapeFlags\<close>).\<close>

definition STATEFUL_COMPONENT :: "32 word" where "STATEFUL_COMPONENT = push_bit 2 1"
definition SUSPENSE :: "32 word" where "SUSPENSE = push_bit 7 1"
definition COMPONENT_SHOULD_KEEP_ALIVE :: "32 word" where "COMPONENT_SHOULD_KEEP_ALIVE = push_bit 8 1"
definition COMPONENT_KEPT_ALIVE :: "32 word" where "COMPONENT_KEPT_ALIVE = push_bit 9 1"

text \<open>
  \<open>props.max\<close> is a number or a string. The model covers natural numbers and their decimal
  numerals: \<open>MaxString n\<close> is the string that \<open>parseInt(max, 10)\<close> reads as \<open>n\<close>. In the
  test \<open>max && ...\<close> the number 0 is falsy, every numeral string is truthy.
\<close>

datatype max_prop = MaxAbsent | MaxNumber nat | MaxString nat

fun max_truthy :: "max_prop \<Rightarrow> bool" where
  "max_truthy MaxAbsent = False"
| "max_truthy (MaxNumber n) = (n \<noteq> 0)"
| "max_truthy (MaxString n) = True"

fun parseInt_max :: "max_prop \<Rightarrow> nat" where
  "parseInt_max MaxAbsent = 0"
| "parseInt_max (MaxNumber n) = n"
| "parseInt_max (MaxString n) = n"

text \<open>
  \<open>include\<close> and \<open>exclude\<close> are patterns; what matters of a pattern is which names it
  matches (\<open>matches(pattern, name)\<close>).
\<close>

record ka_props =
  p_include :: "(string \<Rightarrow> bool) option"
  p_exclude :: "(string \<Rightarrow> bool) option"
  p_max :: max_prop

text \<open>
  The state of one KeepAlive instance: the variables of \<open>setup\<close>, the store of VNodes with
  the next free reference (for \<open>cloneVNode\<close>), and the log of the VNodes handed to the
  renderer's \<open>unmount\<close>, oldest first. \<open>cache\<close> is a \<open>Map\<close> and \<open>keys\<close> a \<open>Set\<close>;
  both keep insertion order.
\<close>

record keepalive =
  cache :: "(cache_key \<times> ref) list"
  keys :: "cache_key list"
  current :: "ref option"
  pendingCacheKey :: "cache_key option"
  vnodes :: "ref \<Rightarrow> vnode"
  next_ref :: ref
  unmounted :: "ref list"

datatype ka_error = TypeError

text \<open>\<open>Map.prototype.set\<close>, \<open>delete\<close> and \<open>Set.prototype.add\<close>, \<open>delete\<close>.\<close>

fun map_set :: "('k \<times> 'v) list \<Rightarrow> 'k \<Rightarrow> 'v \<Rightarrow> ('k \<times> 'v) list" where
  "map_set [] k v = [(k, v)]"
| "map_set ((k', v') # m) k v = (if k' = k then (k, v) # m else (k', v') # map_set m k v)"

definition map_delete :: "('k \<times> 'v) list \<Rightarrow> 'k \<Rightarrow> ('k \<times> 'v) list" where
  "map_delete m k = filter (\<lambda>kv. fst kv \<noteq> k) m"

definition set_add :: "'k list \<Rightarrow> 'k \<Rightarrow> 'k list" where
  "set_add ks k = (if k \<in> set ks then ks else ks @ [k])"

definition set_delete :: "'k list \<Rightarrow> 'k \<Rightarrow> 'k list" where
  "set_delete ks k = removeAll k ks"

definition resetShapeFlag :: "vnode \<Rightarrow> vnode" where
  "resetShapeFlag v =
     v\<lparr>shapeFlag := (shapeFlag v AND NOT COMPONENT_SHOULD_KEEP_ALIVE) AND NOT COMPONENT_KEPT_ALIVE\<rparr>"

definition getInnerChild :: "keepalive \<Rightarrow> ref \<Rightarrow> ref option" where
  "getInnerChild s r =
     (if shapeFlag (vnodes s r) AND SUSPENSE \<noteq> 0 then ssContent (vnodes s r) else Some r)"

text \<open>
  Modelled from the spec: \<open>isSameVNodeType\<close> of \<open>vnode.ts\<close>, which is not among the
  sources. "Same-type: type identity equal and keys equal."
\<close>

definition isSameVNodeType :: "vnode \<Rightarrow> vnode \<Rightarrow> bool" where
  "isSameVNodeType n1 n2 = (vn_type n1 = vn_type n2 \<and> vn_key n1 = vn_key n2)"

text \<open>
  \<open>unmount\<close>: reset the flags, then call the renderer's \<open>unmount\<close>, which the log records.
\<close>

definition unmount :: "ref \<Rightarrow> keepalive \<Rightarrow> keepalive" where
  "unmount r s =
     s\<lparr>vnodes := (vnodes s)(r := resetShapeFlag (vnodes s r)), unmounted := unmounted s @ [r]\<rparr>"

text \<open>
  \<open>pruneCacheEntry\<close>. When the key has no entry, \<open>cached\<close> is \<open>undefined\<close> and both
  \<open>isSameVNodeType(cached, current)\<close> and \<open>unmount(cached)\<close> read a property of it, which
  throws.
\<close>

definition pruneCacheEntry :: "cache_key \<Rightarrow> keepalive \<Rightarrow> ka_error + keepalive" where
  "pruneCacheEntry key s =
     (case map_of (cache s) key of
        None \<Rightarrow> Inl TypeError
      | Some cached \<Rightarrow>
          (let s1 = (case current s of
                       None \<Rightarrow> unmount cached s
                     | Some cur \<Rightarrow>
                         if \<not> isSameVNodeType (vnodes s cached) (vnodes s cur)
                         then unmount cached s
                         else s\<lparr>vnodes := (vnodes s)(cur := resetShapeFlag (vnodes s cur))\<rparr>)
           in Inr (s1\<lparr>cache := map_delete (cache s1) key, keys := set_delete (keys s1) key\<rparr>)))"

text \<open>
  \<open>cacheSubtree\<close>, the \<open>mounted\<close> and \<open>updated\<close> hook. \<open>subTree\<close> is \<open>instance.subTree\<close>,
  which the renderer has set to the VNode it mounted for the last render.
\<close>

definition cacheSubtree :: "ref \<Rightarrow> keepalive \<Rightarrow> ka_error + keepalive" where
  "cacheSubtree subTree s =
     (case pendingCacheKey s of
        None \<Rightarrow> Inr s
      | Some k \<Rightarrow>
          (case getInnerChild s subTree of
             None \<Rightarrow> Inl TypeError
           | Some inner \<Rightarrow> Inr (s\<lparr>cache := map_set (cache s) k inner\<rparr>)))"

text \<open>
  The render function, from \<open>const key = ...\<close> on: \<open>raw\<close> is \<open>rawVNode\<close>, \<open>r\<close> is
  \<open>vnode\<close>, the inner child that has passed the \<open>include\<close> and \<open>exclude\<close> tests.
  \<open>cloneVNode\<close> copies the VNode to a fresh reference. Transitions are not modelled
  (\<open>vnode.transition\<close> is unset), and \<open>isSuspense(rawVNode.type)\<close> is read off the
  \<open>SUSPENSE\<close> shape flag, which a VNode has exactly when its type is Suspense. The result
  is the VNode that the function returns.
\<close>

definition cache_key_of :: "vnode \<Rightarrow> cache_key" where
  "cache_key_of v = (case vn_key v of None \<Rightarrow> ByComp (vn_type v) | Some k \<Rightarrow> ByKey k)"

definition render_cached :: "ka_props \<Rightarrow> ref \<Rightarrow> ref \<Rightarrow> keepalive \<Rightarrow> ka_error + (ref \<times> keepalive)" where
  "render_cached props raw r0 s0 =
     (let key = cache_key_of (vnodes s0 r0);
          cachedVNode = map_of (cache s0) key;
          is_suspense = (shapeFlag (vnodes s0 raw) AND SUSPENSE \<noteq> 0);
          (r, s1) =
            (if vn_el (vnodes s0 r0) \<noteq> None then
               (let n = next_ref s0;
                    sa = s0\<lparr>vnodes := (vnodes s0)(n := vnodes s0 r0), next_ref := Suc n\<rparr>
                in (n, if is_suspense
                       then sa\<lparr>vnodes := (vnodes sa)(raw := (vnodes sa raw)\<lparr>ssContent := Some n\<rparr>)\<rparr>
                       else sa))
             else (r0, s0));
          s2 = s1\<lparr>pendingCacheKey := Some key\<rparr>;
          s3 = (case cachedVNode of
                  Some c \<Rightarrow>
                    Inr (s2\<lparr>vnodes := (vnodes s2)
                              (r := (vnodes s2 r)\<lparr>vn_el := vn_el (vnodes s2 c),
                                    vn_component := vn_component (vnodes s2 c),
                                    shapeFlag := shapeFlag (vnodes s2 r) OR COMPONENT_KEPT_ALIVE\<rparr>),
                           keys := set_add (set_delete (keys s2) key) key\<rparr>)
                | None \<Rightarrow>
                    (let s2' = s2\<lparr>keys := set_add (keys s2) key\<rparr>
                     in if max_truthy (p_max props) \<and> length (keys s2') > parseInt_max (p_max props)
                        then pruneCacheEntry (hd (keys s2')) s2'
                        else Inr s2'))
      in case s3 of
           Inl e \<Rightarrow> Inl e
         | Inr s4 \<Rightarrow>
             Inr (if is_suspense then raw else r,
                  s4\<lparr>vnodes := (vnodes s4)
                        (r := (vnodes s4 r)\<lparr>shapeFlag :=
                               shapeFlag (vnodes s4 r) OR COMPONENT_SHOULD_KEEP_ALIVE\<rparr>),
                      current := Some r\<rparr>))"

text \<open>
  The whole render function. \<open>slot\<close> is \<open>slots.default\<close> applied, \<open>None\<close> when there is
  no default slot; a child is a VNode or something else. \<open>cname\<close> is \<open>getComponentName\<close>,
  \<open>None\<close> when it yields no name (async wrappers are not modelled).
\<close>

datatype child = VNodeChild ref | OtherChild

datatype rendered = RNull | RUndefined | RChildren "child list" | RChild child | RVNode ref

definition render ::
  "ka_props \<Rightarrow> (comp \<Rightarrow> string option) \<Rightarrow> child list option \<Rightarrow> keepalive
    \<Rightarrow> ka_error + (rendered \<times> keepalive)" where
  "render props cname slot s =
     (let s0 = s\<lparr>pendingCacheKey := None\<rparr> in
      case slot of
        None \<Rightarrow> Inr (RNull, s0)
      | Some children \<Rightarrow>
          if length children > 1 then Inr (RChildren children, s0\<lparr>current := None\<rparr>)
          else (case children of
                  [] \<Rightarrow> Inr (RUndefined, s0\<lparr>current := None\<rparr>)
                | OtherChild # _ \<Rightarrow> Inr (RChild OtherChild, s0\<lparr>current := None\<rparr>)
                | VNodeChild raw # _ \<Rightarrow>
                    if shapeFlag (vnodes s0 raw) AND STATEFUL_COMPONENT = 0 \<and>
                       shapeFlag (vnodes s0 raw) AND SUSPENSE = 0
                    then Inr (RChild (VNodeChild raw), s0\<lparr>current := None\<rparr>)
                    else (case getInnerChild s0 raw of
                            None \<Rightarrow> Inl TypeError
                          | Some r \<Rightarrow>
                              (let name = cname (vn_type (vnodes s0 r)) in
                               if (case p_include props of
                                     None \<Rightarrow> False
                                   | Some inc \<Rightarrow> (case name of None \<Rightarrow> True | Some n \<Rightarrow> \<not> inc n)) \<or>
                                  (case p_exclude props of
                                     None \<Rightarrow> False
                                   | Some exc \<Rightarrow> (case name of None \<Rightarrow> False | Some n \<Rightarrow> exc n))
                               then Inr (RVNode raw, s0\<lparr>current := Some r\<rparr>)
                               else (case render_cached props raw r s0 of
                                       Inl e \<Rightarrow> Inl e
                                     | Inr (res, s') \<Rightarrow> Inr (RVNode res, s'))))))"

text \<open>
  Mounting a component under KeepAlive, as far as the cache goes: the render function runs
  with the component's VNode as the only child, then the hook caches the sub-tree, which is
  the VNode that was rendered.
\<close>

definition mount_child ::
  "ka_props \<Rightarrow> (comp \<Rightarrow> string option) \<Rightarrow> ref \<Rightarrow> keepalive \<Rightarrow> ka_error + keepalive" where
  "mount_child props cname r s =
     (case render props cname (Some [VNodeChild r]) s of
        Inl e \<Rightarrow> Inl e
      | Inr (RVNode res, s') \<Rightarrow> cacheSubtree res s'
      | Inr (_, s') \<Rightarrow> Inr s')"

fun mount_children ::
  "ka_props \<Rightarrow> (comp \<Rightarrow> string option) \<Rightarrow> ref list \<Rightarrow> keepalive \<Rightarrow> ka_error + keepalive" where
  "mount_children props cname [] s = Inr s"
| "mount_children props cname (r # rs) s =
     (case mount_child props cname r s of
        Inl e \<Rightarrow> Inl e
      | Inr s' \<Rightarrow> mount_children props cname rs s')"

text \<open>
  Three stateful components A, B and C (descriptors 1, 2, 3), a VNode without key for each
  (references 1, 2, 3), and a KeepAlive that has rendered nothing yet.
\<close>

definition component_vnode :: "comp \<Rightarrow> vnode" where
  "component_vnode c = \<lparr>vn_type = c, vn_key = None, shapeFlag = STATEFUL_COMPONENT, vn_el = None,
     vn_component = None, ssContent = None\<rparr>"

definition ka_init :: keepalive where
  "ka_init = \<lparr>cache = [], keys = [], current = None, pendingCacheKey = None,
     vnodes = component_vnode, next_ref = 4, unmounted = []\<rparr>"

definition props_max :: "max_prop \<Rightarrow> ka_props" where
  "props_max m = \<lparr>p_include = None, p_exclude = None, p_max = m\<rparr>"

definition no_name :: "comp \<Rightarrow> string option" where
  "no_name c = None"

text \<open>What the claims observe of a KeepAlive: key set, cache, current VNode, unmount log.\<close>

definition ka_view ::
  "keepalive \<Rightarrow> cache_key list \<times> (cache_key \<times> ref) list \<times> ref option \<times> ref list" where
  "ka_view s = (keys s, cache s, current s, unmounted s)"

text \<open>A KeepAlive that caches A and B and shows B.\<close>

definition ka_two :: keepalive where
  "ka_two = \<lparr>cache = [(ByComp 1, 1), (ByComp 2, 2)], keys = [ByComp 1, ByComp 2],
     current = Some 2, pendingCacheKey = Some (ByComp 2), vnodes = component_vnode,
     next_ref = 4, unmounted = []\<rparr>"

section \<open>Parser whitespace handling: condenseWhitespace of the compiler-core parser\<close>

text \<open>
  A string is its sequence of code units, as \<open>charCodeAt\<close> reads it. The child nodes of an
  element matter here by their type and, for text, their content.
\<close>

type_synonym js_string = "nat list"

datatype tnode = Element string | Text js_string | Comment js_string | Interpolation js_string

text \<open>\<open>CharCodes\<close>, as far as whitespace goes.\<close>

definition Tab :: nat where "Tab = 0x9"
definition NewLine :: nat where "NewLine = 0xa"
definition FormFeed :: nat where "FormFeed = 0xc"
definition CarriageReturn :: nat where "CarriageReturn = 0xd"
definition Space :: nat where "Space = 0x20"

definition isWhitespace :: "nat \<Rightarrow> bool" where
  "isWhitespace c =
     (c = Space \<or> c = NewLine \<or> c = Tab \<or> c = FormFeed \<or> c = CarriageReturn)"

fun isAllWhitespace :: "js_string \<Rightarrow> bool" where
  "isAllWhitespace [] = True"
| "isAllWhitespace (c # str) = (if \<not> isWhitespace c then False else isAllWhitespace str)"

fun hasNewlineChar :: "js_string \<Rightarrow> bool" where
  "hasNewlineChar [] = False"
| "hasNewlineChar (c # str) =
     (if c = NewLine \<or> c = CarriageReturn then True else hasNewlineChar str)"

text \<open>\<open>condense\<close>: the loop carries \<open>prevCharIsWhitespace\<close>; \<open>ret\<close> is built front to back.\<close>

fun condense_from :: "bool \<Rightarrow> js_string \<Rightarrow> js_string" where
  "condense_from prevCharIsWhitespace [] = []"
| "condense_from prevCharIsWhitespace (c # str) =
     (if isWhitespace c then
        (if \<not> prevCharIsWhitespace then Space # condense_from True str
         else condense_from True str)
      else c # condense_from False str)"

definition condense :: "js_string \<Rightarrow> js_string" where
  "condense str = condense_from False str"

text \<open>\<open>content.replace(/\r\n/g, '\n')\<close> and \<open>content.replace(/^\r?\n/, '')\<close>.\<close>

fun replace_windows_newlines :: "js_string \<Rightarrow> js_string" where
  "replace_windows_newlines (c # d # str) =
     (if c = CarriageReturn \<and> d = NewLine then NewLine # replace_windows_newlines str
      else c # replace_windows_newlines (d # str))"
| "replace_windows_newlines str = str"

fun remove_leading_newline :: "js_string \<Rightarrow> js_string" where
  "remove_leading_newline (c # d # str) =
     (if c = CarriageReturn \<and> d = NewLine then str
      else if c = NewLine then d # str
      else c # d # str)"
| "remove_leading_newline [c] = (if c = NewLine then [] else [c])"
| "remove_leading_newline [] = []"

text \<open>
  The parser options and state the function reads: \<open>currentOptions.whitespace\<close>,
  \<open>currentOptions.isPreTag\<close> and the counter \<open>inPre\<close>.
\<close>

datatype whitespace_option = WsPreserve | WsCondense | WsUnset

record parser_options =
  whitespace :: whitespace_option
  isPreTag :: "string \<Rightarrow> bool"

text \<open>
  The loop of \<open>condenseWhitespace\<close> outside \<open>pre\<close>. The array is changed in place, a
  removed node becoming \<open>null\<close>: the result lists the slots, \<open>None\<close> for \<open>null\<close>. \<open>prev\<close>
  is the slot before the current one as the loop has left it, \<open>None\<close> when there is none
  or it holds \<open>null\<close>; then \<open>nodes[i - 1]?.type\<close> is \<open>undefined\<close>. The node after the current
  one has not been visited yet.
\<close>

fun is_element :: "tnode \<Rightarrow> bool" where
  "is_element (Element t) = True"
| "is_element _ = False"

fun is_comment :: "tnode \<Rightarrow> bool" where
  "is_comment (Comment c) = True"
| "is_comment _ = False"

fun is_text :: "tnode \<Rightarrow> bool" where
  "is_text (Text c) = True"
| "is_text _ = False"

fun condense_nodes :: "bool \<Rightarrow> tnode option \<Rightarrow> tnode list \<Rightarrow> tnode option list" where
  "condense_nodes shouldCondense prev [] = []"
| "condense_nodes shouldCondense prev (Text content # rest) =
     (if isAllWhitespace content then
        (if prev = None \<or> rest = [] \<or>
            (shouldCondense \<and>
             ((is_comment (the prev) \<and> (is_comment (hd rest) \<or> is_element (hd rest))) \<or>
              (is_element (the prev) \<and>
               (is_comment (hd rest) \<or> (is_element (hd rest) \<and> hasNewlineChar content)))))
         then None # condense_nodes shouldCondense None rest
         else Some (Text [Space]) # condense_nodes shouldCondense (Some (Text [Space])) rest)
      else if shouldCondense then
        Some (Text (condense content)) #
          condense_nodes shouldCondense (Some (Text (condense content))) rest
      else Some (Text content) # condense_nodes shouldCondense (Some (Text content)) rest)"
| "condense_nodes shouldCondense prev (node # rest) =
     Some node # condense_nodes shouldCondense (Some node) rest"

text \<open>The loop inside \<open>pre\<close>: text content has its Windows newlines replaced.\<close>

fun pre_node :: "tnode \<Rightarrow> tnode" where
  "pre_node (Text content) = Text (replace_windows_newlines content)"
| "pre_node node = node"

text \<open>
  \<open>condenseWhitespace(nodes, tag)\<close>; \<open>tag\<close> is \<open>None\<close> when the argument is left out.
  \<open>nodes.filter(Boolean)\<close> drops the \<open>null\<close> slots.
\<close>

definition condenseWhitespace ::
  "parser_options \<Rightarrow> nat \<Rightarrow> tnode list \<Rightarrow> string option \<Rightarrow> tnode list" where
  "condenseWhitespace currentOptions inPre nodes tag =
     (let shouldCondense = (whitespace currentOptions \<noteq> WsPreserve);
          nodes1 = (if inPre = 0 then condense_nodes shouldCondense None nodes
                    else map (\<lambda>n. Some (pre_node n)) nodes);
          nodes2 =
            (if inPre \<noteq> 0 \<and> (case tag of None \<Rightarrow> False | Some t \<Rightarrow> t \<noteq> [] \<and> isPreTag currentOptions t)
             then (case nodes1 of
                     Some (Text content) # rest \<Rightarrow> Some (Text (remove_leading_newline content)) # rest
                   | _ \<Rightarrow> nodes1)
             else nodes1)
      in List.map_filter (\<lambda>n. n) nodes2)"

text \<open>
  The whitespace rule in words, for a node with its neighbours in the source (\<open>None\<close>: no
  such neighbour). A whitespace-only text node goes when it is first or last; in condense
  mode also when it lies between two comments, between a comment and an element in either
  order, or between two elements while containing a newline character. A whitespace-only
  text node that stays becomes one space. Other text has its whitespace runs collapsed in
  condense mode and is untouched in preserve mode. Every other node is untouched.
  \<open>collapse_runs\<close> is the collapsing, in words: a whitespace character together with all
  the whitespace that follows it directly becomes one space, and every other character
  stays.
\<close>

function collapse_runs :: "js_string \<Rightarrow> js_string" where
  "collapse_runs [] = []"
| "collapse_runs (c # str) =
     (if isWhitespace c then Space # collapse_runs (dropWhile isWhitespace str)
      else c # collapse_runs str)"
  by pat_completeness auto
termination
  by (relation "measure length") (auto simp: le_imp_less_Suc length_dropWhile_le)

definition whitespace_goes :: "bool \<Rightarrow> tnode option \<Rightarrow> js_string \<Rightarrow> tnode option \<Rightarrow> bool" where
  "whitespace_goes shouldCondense before content after =
     (case (before, after) of
        (Some p, Some n) \<Rightarrow>
          shouldCondense \<and>
          ((is_comment p \<and> is_comment n) \<or> (is_comment p \<and> is_element n) \<or>
           (is_element p \<and> is_comment n) \<or>
           (is_element p \<and> is_element n \<and> hasNewlineChar content))
      | _ \<Rightarrow> True)"

fun whitespace_rule :: "bool \<Rightarrow> tnode option \<Rightarrow> tnode list \<Rightarrow> tnode list" where
  "whitespace_rule shouldCondense before [] = []"
| "whitespace_rule shouldCondense before (node # rest) =
     (case node of
        Text content \<Rightarrow>
          (if isAllWhitespace content then
             (if whitespace_goes shouldCondense before content (case rest of [] \<Rightarrow> None | n # _ \<Rightarrow> Some n)
              then [] else [Text [Space]])
           else if shouldCondense then [Text (collapse_runs content)] else [Text content])
      | _ \<Rightarrow> [node])
     @ whitespace_rule shouldCondense (Some node) rest"

text \<open>The parser merges adjacent text (\<open>onText\<close>), so no two text nodes are neighbours.\<close>

fun no_adjacent_text :: "tnode list \<Rightarrow> bool" where
  "no_adjacent_text (a # b # rest) = (\<not> (is_text a \<and> is_text b) \<and> no_adjacent_text (b # rest))"
| "no_adjacent_text _ = True"

text \<open>Options for concrete runs.\<close>

definition is_pre :: "string \<Rightarrow> bool" where
  "is_pre t = (t = ''pre'')"

definition options_with :: "whitespace_option \<Rightarrow> parser_options" where
  "options_with w = \<lparr>whitespace = w, isPreTag = is_pre\<rparr>"

text \<open>
  How the slot the loop has left behind relates to the node that stood there: it holds a
  node of the same type, or it holds \<open>null\<close> because a text node was removed, and then the
  node that follows is no text node.
\<close>

definition same_kind :: "tnode \<Rightarrow> tnode \<Rightarrow> bool" where
  "same_kind p b = (is_comment p = is_comment b \<and> is_element p = is_element b \<and> is_text p = is_text b)"

definition slot_matches :: "tnode option \<Rightarrow> tnode option \<Rightarrow> tnode list \<Rightarrow> bool" where
  "slot_matches prev before nodes =
     (case before of
        None \<Rightarrow> prev = None
      | Some b \<Rightarrow>
          (case prev of
             Some p \<Rightarrow> same_kind p b
           | None \<Rightarrow> is_text b \<and> (case nodes of [] \<Rightarrow> True | n # _ \<Rightarrow> \<not> is_text n)))"

text \<open>No two neighbouring code units of a string are both whitespace.\<close>

fun no_whitespace_run :: "js_string \<Rightarrow> bool" where
  "no_whitespace_run (c # d # str) = (\<not> (isWhitespace c \<and> isWhitespace d) \<and> no_whitespace_run (d # str))"
| "no_whitespace_run _ = True"

section \<open>The proxy registry: reactive of unnamed/part_001, BaseReactiveHandler.get of unnamed/part_006\<close>

text \<open>
  Objects are named by numbers; \<open>next_obj\<close> is the next name to hand out. A proxy is an
  object too; \<open>proxies\<close> records, for each proxy that \<open>createReactive\<close> has made, its target
  and the two flags its handler closes over. \<open>reactiveMap\<close> is the \<open>Map\<close> of part_001.
\<close>

type_synonym obj = nat

record proxy =
  target :: obj
  px_shallow :: bool
  px_readonly :: bool

record registry =
  reactiveMap :: "obj \<Rightarrow> obj option"
  proxies :: "obj \<Rightarrow> proxy option"
  next_obj :: obj

definition createReactive :: "obj \<Rightarrow> bool \<Rightarrow> bool \<Rightarrow> registry \<Rightarrow> obj \<times> registry" where
  "createReactive o' isShallow isReadonly s =
     (next_obj s,
      s\<lparr>proxies := (proxies s)(next_obj s \<mapsto>
             \<lparr>target = o', px_shallow = isShallow, px_readonly = isReadonly\<rparr>),
        next_obj := Suc (next_obj s)\<rparr>)"

definition reactive :: "obj \<Rightarrow> registry \<Rightarrow> obj \<times> registry" where
  "reactive o' s =
     (case reactiveMap s o' of
        Some existProxy \<Rightarrow> (existProxy, s)
      | None \<Rightarrow>
          (let (proxy, s1) = createReactive o' False False s
           in (proxy, s1\<lparr>reactiveMap := (reactiveMap s1)(o' \<mapsto> proxy)\<rparr>)))"

definition shallowReactive :: "obj \<Rightarrow> registry \<Rightarrow> obj \<times> registry" where
  "shallowReactive o' s = createReactive o' True False s"

definition readonly :: "obj \<Rightarrow> registry \<Rightarrow> obj \<times> registry" where
  "readonly o' s = createReactive o' False True s"

definition shallowReadonly :: "obj \<Rightarrow> registry \<Rightarrow> obj \<times> registry" where
  "shallowReadonly o' s = createReactive o' True True s"

text \<open>
  The raw escape of part_001: the \<open>get\<close> trap answers the key \<open>raw\<close> with the target. On
  an object that is no proxy \<open>raw\<close> is an ordinary property, which the model does not
  hold: \<open>None\<close>.
\<close>

definition raw_get :: "registry \<Rightarrow> obj \<Rightarrow> obj option" where
  "raw_get s p = map_option target (proxies s p)"

text \<open>What a program does with the registry: it makes objects and wraps them.\<close>

datatype reg_call = NewObject | Reactive obj | ShallowReactive obj | Readonly obj | ShallowReadonly obj

fun reg_step :: "registry \<Rightarrow> reg_call \<Rightarrow> registry" where
  "reg_step s NewObject = s\<lparr>next_obj := Suc (next_obj s)\<rparr>"
| "reg_step s (Reactive x) = snd (reactive x s)"
| "reg_step s (ShallowReactive x) = snd (shallowReactive x s)"
| "reg_step s (Readonly x) = snd (readonly x s)"
| "reg_step s (ShallowReadonly x) = snd (shallowReadonly x s)"

definition reg_run :: "reg_call list \<Rightarrow> registry \<Rightarrow> registry" where
  "reg_run cs s = foldl reg_step s cs"

definition reg_init :: registry where
  "reg_init = \<lparr>reactiveMap = (\<lambda>x. None), proxies = (\<lambda>x. None), next_obj = 0\<rparr>"

text \<open>What holds of every registry a program can reach.\<close>

definition reg_ok :: "registry \<Rightarrow> bool" where
  "reg_ok s =
     ((\<forall>x p. reactiveMap s x = Some p \<longrightarrow> (\<exists>pr. proxies s p = Some pr \<and> target pr = x)) \<and>
      (\<forall>p pr. proxies s p = Some pr \<longrightarrow> p < next_obj s))"

text \<open>
  \<open>BaseReactiveHandler.get\<close> of part_006 on the flag keys. The handler holds \<open>_isReadonly\<close>
  and \<open>_shallow\<close>; the four registries come from \<open>reactive.ts\<close>, which is not among the
  sources, and are parameters here, as is \<open>Object.getPrototypeOf\<close>. Any other key goes on
  to the rest of the trap: \<open>Continue\<close>.
\<close>

datatype flag_key = IS_REACTIVE | IS_READONLY | IS_SHALLOW | RAW | OtherKey

datatype get_result = RBool bool | RObj obj | RUndefined | Continue

record registries =
  g_reactiveMap :: "obj \<Rightarrow> obj option"
  g_shallowReactiveMap :: "obj \<Rightarrow> obj option"
  g_readonlyMap :: "obj \<Rightarrow> obj option"
  g_shallowReadonlyMap :: "obj \<Rightarrow> obj option"

definition handler_get ::
  "bool \<Rightarrow> bool \<Rightarrow> registries \<Rightarrow> (obj \<Rightarrow> obj option) \<Rightarrow> obj \<Rightarrow> flag_key \<Rightarrow> obj \<Rightarrow> get_result" where
  "handler_get isReadonly shallow maps getPrototypeOf tgt key receiver =
     (if key = IS_REACTIVE then RBool (\<not> isReadonly)
      else if key = IS_READONLY then RBool isReadonly
      else if key = IS_SHALLOW then RBool shallow
      else if key = RAW then
        (if (if isReadonly
             then (if shallow then g_shallowReadonlyMap maps else g_readonlyMap maps)
             else (if shallow then g_shallowReactiveMap maps else g_reactiveMap maps)) tgt
              = Some receiver \<or>
            getPrototypeOf tgt = getPrototypeOf receiver
         then RObj tgt
         else RUndefined)
      else Continue)"

text \<open>Registries in which object 1 is the reactive proxy of object 0, and no prototypes.\<close>

definition one_proxy :: registries where
  "one_proxy = \<lparr>g_reactiveMap = (\<lambda>x. if x = 0 then Some 1 else None),
     g_shallowReactiveMap = (\<lambda>x. None), g_readonlyMap = (\<lambda>x. None),
     g_shallowReadonlyMap = (\<lambda>x. None)\<rparr>"

definition null_proto :: "obj \<Rightarrow> obj option" where
  "null_proto x = None"

text \<open>\<open>p\<close> is the registered proxy of \<open>x\<close>, and its raw escape is \<open>x\<close>.\<close>

definition registered :: "registry \<Rightarrow> obj \<Rightarrow> obj \<Rightarrow> bool" where
  "registered s x p = (reactiveMap s x = Some p \<and> raw_get s p = Some x)"

text \<open>One object, wrapped once.\<close>

definition first_wrap :: "obj \<times> registry" where
  "first_wrap = reactive 0 (reg_run [NewObject] reg_init)"

section \<open>The reactivity kernel: unnamed/part_005 (effect.ts) and reactivity/src/reactiveEffect.ts\<close>

text \<open>
  Effects, deps and targets are objects, named by numbers and kept in stores. A property
  key is a string or a symbol; \<open>track\<close> and \<open>trigger\<close> take any value as key (the keys of a
  \<open>Map\<close>), so a key may also be \<open>undefined\<close>, a number or an object.
\<close>

type_synonym eid = nat
type_synonym did = nat
type_synonym tid = nat

datatype symbol = ITERATE_KEY | MAP_KEY_ITERATE_KEY | OtherSymbol nat

datatype pkey = KStr string | KSym symbol | KUndefined | KNum int | KObj nat

datatype kind = PlainObject | ArrayObject | MapObject | SetObject

datatype TriggerOpTypes = SET | ADD | DELETE | CLEAR

text \<open>\<open>DirtyLevels\<close>; the code compares them as numbers.\<close>

definition NotDirty :: nat where "NotDirty = 0"
definition MaybeDirty :: nat where "MaybeDirty = 1"
definition Dirty :: nat where "Dirty = 2"

text \<open>
  \<open>class ReactiveEffect\<close>. \<open>ef_scheduler\<close> says whether \<open>effect.scheduler\<close> is set; the
  functions \<open>fn\<close>, \<open>trigger\<close> and \<open>scheduler\<close> themselves are given to the model from outside.
\<close>

record reactive_effect =
  ef_active :: bool
  ef_deps :: "did list"
  ef_allowRecurse :: bool
  ef_dirtyLevel :: nat
  ef_trackId :: nat
  ef_runnings :: int
  ef_shouldSchedule :: bool
  ef_depsLength :: nat
  ef_scheduler :: bool

text \<open>
  Modelled from the spec: \<open>Dep\<close> and \<open>createDep\<close> of \<open>dep.ts\<close>, which is not among the
  sources. "A mapping from effect to its last-seen track-id, plus a cleanup callback invoked
  when the dep becomes empty." The mapping is a \<open>Map\<close>, kept in insertion order. The cleanup
  that \<open>track\<close> passes is \<open>() => depsMap.delete(key)\<close>: \<open>dep_cleanup\<close> holds its target and
  key, and is \<open>None\<close> for a dep with a cleanup that does nothing here.
\<close>

record dep =
  dep_entries :: "(eid \<times> nat) list"
  dep_cleanup :: "(tid \<times> pkey) option"

text \<open>
  The module state of \<open>effect.ts\<close> and \<open>reactiveEffect.ts\<close>, the stores, and two logs:
  \<open>notified\<close> lists the effects whose \<open>trigger()\<close> callback has been called and \<open>runs\<close> the
  effects whose \<open>fn\<close> has been called, oldest first. \<open>effect()\<close> passes \<open>NOOP\<close> as the
  \<open>trigger\<close> callback; the model takes every \<open>trigger\<close> callback to leave the state alone.
  \<open>queueEffectSchedulers\<close> holds scheduler functions, each named by its effect. \<open>kinds\<close> and
  \<open>arrays\<close> say what each target is and, for an array of numbers, what it holds (\<open>None\<close> is
  an empty slot).
\<close>

record kstate =
  k_effects :: "eid \<Rightarrow> reactive_effect"
  k_deps :: "did \<Rightarrow> dep"
  targetMap :: "tid \<Rightarrow> (pkey \<times> did) list option"
  next_dep :: did
  kinds :: "tid \<Rightarrow> kind"
  arrays :: "tid \<Rightarrow> int option list"
  activeEffect :: "eid option"
  shouldTrack :: bool
  trackStack :: "bool list"
  pauseScheduleStack :: int
  queueEffectSchedulers :: "eid list"
  notified :: "eid list"
  runs :: "eid list"

definition upd_effect :: "eid \<Rightarrow> (reactive_effect \<Rightarrow> reactive_effect) \<Rightarrow> kstate \<Rightarrow> kstate" where
  "upd_effect e f s = s\<lparr>k_effects := (k_effects s)(e := f (k_effects s e))\<rparr>"

definition dep_get :: "kstate \<Rightarrow> did \<Rightarrow> eid \<Rightarrow> nat option" where
  "dep_get s d e = map_of (dep_entries (k_deps s d)) e"

definition dep_keys :: "kstate \<Rightarrow> did \<Rightarrow> eid list" where
  "dep_keys s d = map fst (dep_entries (k_deps s d))"

subsection \<open>Tracking\<close>

text \<open>\<open>dep.cleanup()\<close>.\<close>

definition run_dep_cleanup :: "did \<Rightarrow> kstate \<Rightarrow> kstate" where
  "run_dep_cleanup d s =
     (case dep_cleanup (k_deps s d) of
        None \<Rightarrow> s
      | Some (t, key) \<Rightarrow>
          s\<lparr>targetMap := (targetMap s)(t := map_option (\<lambda>depsMap. map_delete depsMap key) (targetMap s t))\<rparr>)"

definition cleanupDepEffect :: "did \<Rightarrow> eid \<Rightarrow> kstate \<Rightarrow> kstate" where
  "cleanupDepEffect d e s =
     (case dep_get s d e of
        None \<Rightarrow> s
      | Some trackId \<Rightarrow>
          if ef_trackId (k_effects s e) \<noteq> trackId then
            (let s1 = s\<lparr>k_deps := (k_deps s)
                        (d := (k_deps s d)\<lparr>dep_entries := map_delete (dep_entries (k_deps s d)) e\<rparr>)\<rparr>
             in if dep_entries (k_deps s1 d) = [] then run_dep_cleanup d s1 else s1)
          else s)"

definition preCleanupEffect :: "eid \<Rightarrow> kstate \<Rightarrow> kstate" where
  "preCleanupEffect e s =
     upd_effect e (\<lambda>ef. ef\<lparr>ef_trackId := ef_trackId ef + 1, ef_depsLength := 0\<rparr>) s"

definition postCleanupEffect :: "eid \<Rightarrow> kstate \<Rightarrow> kstate" where
  "postCleanupEffect e s =
     (let ef = k_effects s e in
      if length (ef_deps ef) > ef_depsLength ef then
        upd_effect e (\<lambda>ef'. ef'\<lparr>ef_deps := take (ef_depsLength ef) (ef_deps ef')\<rparr>)
          (fold (\<lambda>d. cleanupDepEffect d e) (drop (ef_depsLength ef) (ef_deps ef)) s)
      else s)"

text \<open>
  \<open>trackEffect\<close>. \<open>effect.deps[effect._depsLength++] = dep\<close> overwrites a slot or, at the
  end of the array, appends; \<open>_depsLength\<close> never exceeds \<open>deps.length\<close> (invariant
  \<open>graph_ok\<close> below), so the assignment leaves no holes. The development-only \<open>onTrack\<close>
  is left out.
\<close>

definition trackEffect :: "eid \<Rightarrow> did \<Rightarrow> kstate \<Rightarrow> kstate" where
  "trackEffect e d s =
     (if dep_get s d e \<noteq> Some (ef_trackId (k_effects s e)) then
        (let s1 = s\<lparr>k_deps := (k_deps s)
                    (d := (k_deps s d)\<lparr>dep_entries :=
                       map_set (dep_entries (k_deps s d)) e (ef_trackId (k_effects s e))\<rparr>)\<rparr>;
             n = ef_depsLength (k_effects s1 e);
             oldDep = (if n < length (ef_deps (k_effects s1 e))
                       then Some (ef_deps (k_effects s1 e) ! n) else None)
         in if oldDep \<noteq> Some d then
              (let s2 = (case oldDep of None \<Rightarrow> s1 | Some od \<Rightarrow> cleanupDepEffect od e s1)
               in upd_effect e
                    (\<lambda>ef. ef\<lparr>ef_deps := (if n < length (ef_deps ef) then (ef_deps ef)[n := d]
                                          else ef_deps ef @ [d]),
                             ef_depsLength := n + 1\<rparr>) s2)
            else upd_effect e (\<lambda>ef. ef\<lparr>ef_depsLength := n + 1\<rparr>) s1)
      else s)"

text \<open>\<open>track\<close>; its \<open>type\<close> argument only feeds the development-only debugger event.\<close>

definition track :: "tid \<Rightarrow> pkey \<Rightarrow> kstate \<Rightarrow> kstate" where
  "track t key s =
     (case activeEffect s of
        None \<Rightarrow> s
      | Some e \<Rightarrow>
          if shouldTrack s then
            (let s1 = (case targetMap s t of
                         None \<Rightarrow> s\<lparr>targetMap := (targetMap s)(t \<mapsto> [])\<rparr>
                       | Some depsMap \<Rightarrow> s);
                 depsMap = the (targetMap s1 t)
             in case map_of depsMap key of
                  Some d \<Rightarrow> trackEffect e d s1
                | None \<Rightarrow>
                    (let d = next_dep s1;
                         s2 = s1\<lparr>k_deps := (k_deps s1)
                                   (d := \<lparr>dep_entries = [], dep_cleanup = Some (t, key)\<rparr>),
                                 targetMap := (targetMap s1)(t \<mapsto> map_set depsMap key d),
                                 next_dep := Suc d\<rparr>
                     in trackEffect e d s2))
          else s)"

definition pauseTracking :: "kstate \<Rightarrow> kstate" where
  "pauseTracking s = s\<lparr>trackStack := trackStack s @ [shouldTrack s], shouldTrack := False\<rparr>"

definition enableTracking :: "kstate \<Rightarrow> kstate" where
  "enableTracking s = s\<lparr>trackStack := trackStack s @ [shouldTrack s], shouldTrack := True\<rparr>"

definition resetTracking :: "kstate \<Rightarrow> kstate" where
  "resetTracking s =
     (if trackStack s = [] then s\<lparr>shouldTrack := True\<rparr>
      else s\<lparr>shouldTrack := last (trackStack s), trackStack := butlast (trackStack s)\<rparr>)"

subsection \<open>Scheduling\<close>

definition pauseScheduling :: "kstate \<Rightarrow> kstate" where
  "pauseScheduling s = s\<lparr>pauseScheduleStack := pauseScheduleStack s + 1\<rparr>"

text \<open>
  \<open>resetScheduling\<close>. The loop \<open>while (!pauseScheduleStack && queueEffectSchedulers.length)\<close>
  calls the queued schedulers, which may queue more: it gets fuel, and \<open>None\<close> means the fuel
  ran out or a scheduler did not return. \<open>sched e\<close> is what calling the scheduler of effect
  \<open>e\<close> does.
\<close>

fun drain_schedulers :: "(eid \<Rightarrow> kstate \<Rightarrow> kstate option) \<Rightarrow> nat \<Rightarrow> kstate \<Rightarrow> kstate option" where
  "drain_schedulers sched 0 s =
     (if pauseScheduleStack s = 0 \<and> queueEffectSchedulers s \<noteq> [] then None else Some s)"
| "drain_schedulers sched (Suc n) s =
     (if pauseScheduleStack s = 0 \<and> queueEffectSchedulers s \<noteq> [] then
        (case sched (hd (queueEffectSchedulers s))
                (s\<lparr>queueEffectSchedulers := tl (queueEffectSchedulers s)\<rparr>) of
           None \<Rightarrow> None
         | Some s' \<Rightarrow> drain_schedulers sched n s')
      else Some s)"

definition resetScheduling :: "(eid \<Rightarrow> kstate \<Rightarrow> kstate option) \<Rightarrow> nat \<Rightarrow> kstate \<Rightarrow> kstate option" where
  "resetScheduling sched fuel s =
     drain_schedulers sched fuel (s\<lparr>pauseScheduleStack := pauseScheduleStack s - 1\<rparr>)"

text \<open>
  One turn of the first loop of \<open>triggerEffects\<close>, for the effect \<open>e\<close> of \<open>dep.keys()\<close>; the
  development-only \<open>onTrigger\<close> is left out.
\<close>

definition trigger_effect :: "did \<Rightarrow> nat \<Rightarrow> eid \<Rightarrow> kstate \<Rightarrow> kstate" where
  "trigger_effect d dirtyLevel e s =
     (let ef = k_effects s e in
      if ef_dirtyLevel ef < dirtyLevel \<and> dep_get s d e = Some (ef_trackId ef) then
        (let lastDirtyLevel = ef_dirtyLevel ef;
             s1 = upd_effect e (\<lambda>ef. ef\<lparr>ef_dirtyLevel := dirtyLevel\<rparr>) s
         in if lastDirtyLevel = NotDirty then
              (upd_effect e (\<lambda>ef. ef\<lparr>ef_shouldSchedule := True\<rparr>) s1)\<lparr>notified := notified s1 @ [e]\<rparr>
            else s1)
      else s)"

text \<open>One turn of the loop of \<open>scheduleEffects\<close>.\<close>

definition schedule_effect :: "did \<Rightarrow> eid \<Rightarrow> kstate \<Rightarrow> kstate" where
  "schedule_effect d e s =
     (let ef = k_effects s e in
      if ef_scheduler ef \<and> ef_shouldSchedule ef \<and>
         (ef_runnings ef = 0 \<or> ef_allowRecurse ef) \<and>
         dep_get s d e = Some (ef_trackId ef)
      then (upd_effect e (\<lambda>ef. ef\<lparr>ef_shouldSchedule := False\<rparr>) s)
             \<lparr>queueEffectSchedulers := queueEffectSchedulers s @ [e]\<rparr>
      else s)"

definition scheduleEffects :: "did \<Rightarrow> kstate \<Rightarrow> kstate" where
  "scheduleEffects d s = fold (schedule_effect d) (dep_keys s d) s"

text \<open>\<open>triggerEffects\<close> up to its last line, and whole.\<close>

definition mark_and_schedule :: "did \<Rightarrow> nat \<Rightarrow> kstate \<Rightarrow> kstate" where
  "mark_and_schedule d dirtyLevel s =
     (let s1 = pauseScheduling s
      in scheduleEffects d (fold (trigger_effect d dirtyLevel) (dep_keys s1 d) s1))"

definition triggerEffects ::
  "(eid \<Rightarrow> kstate \<Rightarrow> kstate option) \<Rightarrow> nat \<Rightarrow> did \<Rightarrow> nat \<Rightarrow> kstate \<Rightarrow> kstate option" where
  "triggerEffects sched fuel d dirtyLevel s =
     resetScheduling sched fuel (mark_and_schedule d dirtyLevel s)"

subsection \<open>Triggering\<close>

text \<open>
  What \<open>trigger\<close> takes from \<open>@vue/shared\<close> and from the language, as parameters:
  \<open>isIntegerKey\<close>, and \<open>ToNumber\<close> on strings, which decides \<open>key >= newLength\<close> for a
  string key. \<open>undefined\<close> and objects compare as \<open>NaN\<close>. \<open>NaN >= n\<close> is false.
\<close>

record shared =
  isIntegerKey :: "pkey \<Rightarrow> bool"
  toNumber :: "string \<Rightarrow> jsnum"

definition isSymbol :: "pkey \<Rightarrow> bool" where
  "isSymbol key = (case key of KSym _ \<Rightarrow> True | _ \<Rightarrow> False)"

definition key_number :: "shared \<Rightarrow> pkey \<Rightarrow> jsnum" where
  "key_number sh key =
     (case key of KStr str \<Rightarrow> toNumber sh str | KNum n \<Rightarrow> Num n | _ \<Rightarrow> NaN)"

definition js_ge :: "jsnum \<Rightarrow> jsnum \<Rightarrow> bool" where
  "js_ge a b = (a \<noteq> NaN \<and> b \<noteq> NaN \<and> \<not> js_less a b)"

text \<open>
  The deps that \<open>trigger\<close> collects, in order; \<open>None\<close> is an \<open>undefined\<close> that
  \<open>depsMap.get\<close> returned. \<open>newLength\<close> is \<open>Number(newValue)\<close>.
\<close>

definition collect_deps ::
  "shared \<Rightarrow> kind \<Rightarrow> (pkey \<times> did) list \<Rightarrow> TriggerOpTypes \<Rightarrow> pkey \<Rightarrow> jsnum \<Rightarrow> did option list" where
  "collect_deps sh tk depsMap type key newLength =
     (if type = CLEAR then map (\<lambda>kd. Some (snd kd)) depsMap
      else if key = KStr ''length'' \<and> tk = ArrayObject then
        map (\<lambda>kd. Some (snd kd))
          (filter (\<lambda>kd. fst kd = KStr ''length'' \<or>
                        (\<not> isSymbol (fst kd) \<and> js_ge (key_number sh (fst kd)) newLength))
             depsMap)
      else
        (if key \<noteq> KUndefined then [map_of depsMap key] else []) @
        (case type of
           ADD \<Rightarrow>
             (if tk \<noteq> ArrayObject then
                [map_of depsMap (KSym ITERATE_KEY)] @
                (if tk = MapObject then [map_of depsMap (KSym MAP_KEY_ITERATE_KEY)] else [])
              else if isIntegerKey sh key then [map_of depsMap (KStr ''length'')]
              else [])
         | DELETE \<Rightarrow>
             (if tk \<noteq> ArrayObject then
                [map_of depsMap (KSym ITERATE_KEY)] @
                (if tk = MapObject then [map_of depsMap (KSym MAP_KEY_ITERATE_KEY)] else [])
              else [])
         | SET \<Rightarrow> (if tk = MapObject then [map_of depsMap (KSym ITERATE_KEY)] else [])
         | CLEAR \<Rightarrow> []))"

text \<open>The loop \<open>for (const dep of deps) if (dep) triggerEffects(dep, DirtyLevels.Dirty)\<close>.\<close>

fun trigger_each ::
  "(eid \<Rightarrow> kstate \<Rightarrow> kstate option) \<Rightarrow> nat \<Rightarrow> did option list \<Rightarrow> kstate \<Rightarrow> kstate option" where
  "trigger_each sched fuel [] s = Some s"
| "trigger_each sched fuel (None # deps) s = trigger_each sched fuel deps s"
| "trigger_each sched fuel (Some d # deps) s =
     (case triggerEffects sched fuel d Dirty s of
        None \<Rightarrow> None
      | Some s' \<Rightarrow> trigger_each sched fuel deps s')"

definition trigger ::
  "shared \<Rightarrow> (eid \<Rightarrow> kstate \<Rightarrow> kstate option) \<Rightarrow> nat \<Rightarrow> tid \<Rightarrow> TriggerOpTypes \<Rightarrow> pkey \<Rightarrow> jsnum
    \<Rightarrow> kstate \<Rightarrow> kstate option" where
  "trigger sh sched fuel t type key newLength s =
     (case targetMap s t of
        None \<Rightarrow> Some s
      | Some depsMap \<Rightarrow>
          (case trigger_each sched fuel
                  (collect_deps sh (kinds s t) depsMap type key newLength) (pauseScheduling s) of
             None \<Rightarrow> None
           | Some s' \<Rightarrow> resetScheduling sched fuel s'))"

text \<open>
  An effect that the first loop of \<open>triggerEffects(dep, dirtyLevel)\<close> acts on: its recorded
  track-id in the dep is its current one and its dirty level is below the triggering level.
\<close>

definition armed :: "kstate \<Rightarrow> did \<Rightarrow> nat \<Rightarrow> eid \<Rightarrow> bool" where
  "armed s d dirtyLevel e =
     (ef_dirtyLevel (k_effects s e) < dirtyLevel \<and> dep_get s d e = Some (ef_trackId (k_effects s e)))"

text \<open>The entries that a log or queue has gained from one state to a later one.\<close>

definition gained :: "'a list \<Rightarrow> 'a list \<Rightarrow> 'a list" where
  "gained before after = drop (length before) after"

text \<open>The test of \<open>scheduleEffects\<close>.\<close>

definition schedulable :: "kstate \<Rightarrow> did \<Rightarrow> eid \<Rightarrow> bool" where
  "schedulable s d e =
     (ef_scheduler (k_effects s e) \<and> ef_shouldSchedule (k_effects s e) \<and>
      (ef_runnings (k_effects s e) = 0 \<or> ef_allowRecurse (k_effects s e)) \<and>
      dep_get s d e = Some (ef_trackId (k_effects s e)))"

subsection \<open>States for concrete runs\<close>

text \<open>
  An effect as \<open>effect(fn)\<close> makes it, before its first run; a kernel in which nothing has
  happened yet; a scheduler that does nothing when called.
\<close>

definition fresh_effect :: reactive_effect where
  "fresh_effect = \<lparr>ef_active = True, ef_deps = [], ef_allowRecurse = False, ef_dirtyLevel = Dirty,
     ef_trackId = 0, ef_runnings = 0, ef_shouldSchedule = False, ef_depsLength = 0,
     ef_scheduler = True\<rparr>"

definition k_init :: kstate where
  "k_init = \<lparr>k_effects = (\<lambda>e. fresh_effect),
     k_deps = (\<lambda>d. \<lparr>dep_entries = [], dep_cleanup = None\<rparr>),
     targetMap = (\<lambda>t. None), next_dep = 0, kinds = (\<lambda>t. PlainObject), arrays = (\<lambda>t. []),
     activeEffect = None, shouldTrack = True, trackStack = [], pauseScheduleStack = 0,
     queueEffectSchedulers = [], notified = [], runs = []\<rparr>"

definition idle_scheduler :: "eid \<Rightarrow> kstate \<Rightarrow> kstate option" where
  "idle_scheduler e s = Some s"

text \<open>
  Effect 0 has run once and subscribes to dep 0; \<open>subscribed lvl\<close> has it at dirty level
  \<open>lvl\<close>. \<open>k_view\<close> shows effect 0's dirty level, the notify log and the scheduler queue.
\<close>

definition subscribed :: "nat \<Rightarrow> kstate" where
  "subscribed lvl =
     k_init\<lparr>k_effects := (k_effects k_init)
               (0 := fresh_effect\<lparr>ef_dirtyLevel := lvl, ef_trackId := 1, ef_deps := [0],
                                  ef_depsLength := 1\<rparr>),
            k_deps := (k_deps k_init)(0 := \<lparr>dep_entries = [(0, 1)], dep_cleanup = None\<rparr>),
            next_dep := 1\<rparr>"

definition k_view :: "kstate \<Rightarrow> nat \<times> eid list \<times> eid list" where
  "k_view s = (ef_dirtyLevel (k_effects s 0), notified s, queueEffectSchedulers s)"

subsection \<open>What trigger does, in words\<close>

text \<open>
  The keys that a change of an array's length reaches: \<open>length\<close> itself, and every key that
  is no symbol and is at least the new length.
\<close>

definition reached_by_length :: "shared \<Rightarrow> jsnum \<Rightarrow> pkey \<Rightarrow> bool" where
  "reached_by_length sh newLength k =
     (k = KStr ''length'' \<or> (\<not> isSymbol k \<and> js_ge (key_number sh k) newLength))"

text \<open>
  The keys whose deps are collected besides the dep of the key itself: on ADD to a
  non-array the iteration key, and the map-key iteration key when the target is a \<open>Map\<close>;
  on ADD of an integer key to an array \<open>length\<close>; on DELETE from a non-array the same as
  on ADD; on SET on a \<open>Map\<close> the iteration key.
\<close>

definition also_keys :: "shared \<Rightarrow> kind \<Rightarrow> TriggerOpTypes \<Rightarrow> pkey \<Rightarrow> pkey list" where
  "also_keys sh tk type key =
     (if type = ADD \<and> tk \<noteq> ArrayObject then
        KSym ITERATE_KEY # (if tk = MapObject then [KSym MAP_KEY_ITERATE_KEY] else [])
      else if type = ADD \<and> tk = ArrayObject \<and> isIntegerKey sh key then [KStr ''length'']
      else if type = DELETE \<and> tk \<noteq> ArrayObject then
        KSym ITERATE_KEY # (if tk = MapObject then [KSym MAP_KEY_ITERATE_KEY] else [])
      else if type = SET \<and> tk = MapObject then [KSym ITERATE_KEY]
      else [])"

text \<open>The deps that \<open>trigger\<close> calls \<open>triggerEffects\<close> on: the collected ones that exist.\<close>

definition triggered_deps ::
  "shared \<Rightarrow> kind \<Rightarrow> (pkey \<times> did) list \<Rightarrow> TriggerOpTypes \<Rightarrow> pkey \<Rightarrow> jsnum \<Rightarrow> did list" where
  "triggered_deps sh tk depsMap type key newLength =
     List.map_filter (\<lambda>d. d) (collect_deps sh tk depsMap type key newLength)"

text \<open>
  Marking the effects of each of a list of deps at level \<open>Dirty\<close> and queueing their
  schedulers, under a pause that stays in place.
\<close>

definition mark_all :: "did list \<Rightarrow> kstate \<Rightarrow> kstate" where
  "mark_all ds s =
     fold (\<lambda>d s'. (mark_and_schedule d Dirty s')\<lparr>pauseScheduleStack := pauseScheduleStack s'\<rparr>) ds s"

subsection \<open>Keys that are numerals\<close>

text \<open>
  For concrete runs only: \<open>isIntegerKey\<close> and \<open>ToNumber\<close> on the keys that occur there,
  which are decimal numerals of natural numbers (no leading zero) and names that are no
  numbers. On other strings that the language reads as numbers (\<open>01\<close>, \<open>1.5\<close>, \<open>1e1\<close>, the
  empty string) \<open>numeral_shared\<close> answers \<open>NaN\<close> and is not \<open>ToNumber\<close>; the general
  theorems take \<open>isIntegerKey\<close> and \<open>ToNumber\<close> as parameters and do not use it.
  \<open>numeral_of\<close> is \<open>String(n)\<close>.
\<close>

fun digits_value :: "nat \<Rightarrow> string \<Rightarrow> nat option" where
  "digits_value acc [] = Some acc"
| "digits_value acc (c # cs) =
     (case indexOf ''0123456789'' c of
        None \<Rightarrow> None
      | Some v \<Rightarrow> digits_value (acc * 10 + v) cs)"

definition numeral_value :: "string \<Rightarrow> nat option" where
  "numeral_value str =
     (if str = [] \<or> (length str > 1 \<and> hd str = CHR ''0'') then None else digits_value 0 str)"

function numeral_of :: "nat \<Rightarrow> string" where
  "numeral_of n =
     (if n < 10 then [''0123456789'' ! n] else numeral_of (n div 10) @ [''0123456789'' ! (n mod 10)])"
  by pat_completeness auto
termination
  by (relation "measure (\<lambda>n. n)") auto

declare numeral_of.simps [simp del]

definition numeral_shared :: shared where
  "numeral_shared =
     \<lparr>isIntegerKey = (\<lambda>k. case k of KStr str \<Rightarrow> numeral_value str \<noteq> None | _ \<Rightarrow> False),
      toNumber = (\<lambda>str. case numeral_value str of Some n \<Rightarrow> Num (int n) | None \<Rightarrow> NaN)\<rparr>"

text \<open>
  Target 0, of kind \<open>tk\<close>, of which effect 0 has read the key \<open>k\<close> in its one run so far;
  and, for an array, a map of deps for \<open>length\<close>, \<open>0\<close>, \<open>1\<close> and a method name.
\<close>

definition key_read :: "pkey \<Rightarrow> kind \<Rightarrow> kstate" where
  "key_read k tk =
     (subscribed NotDirty)\<lparr>targetMap := (targetMap (subscribed NotDirty))(0 \<mapsto> [(k, 0)]),
                            kinds := (kinds (subscribed NotDirty))(0 := tk)\<rparr>"

definition array_depsMap :: "(pkey \<times> did) list" where
  "array_depsMap = [(KStr ''length'', 0), (KStr ''0'', 1), (KStr ''1'', 2), (KStr ''map'', 3)]"

subsection \<open>The subscription graph\<close>

text \<open>
  What holds of an effect and the deps in every state the kernel can reach: the cursor
  \<open>_depsLength\<close> is within \<open>deps\<close>; every dep that has the effect as a subscriber is in
  \<open>deps\<close>; the deps before the cursor record the effect's current track-id; a dep that
  records the current track-id is before the cursor; and no dep records a track-id that the
  effect has not reached yet.
\<close>

definition effect_ok :: "kstate \<Rightarrow> eid \<Rightarrow> bool" where
  "effect_ok s e =
     (ef_depsLength (k_effects s e) \<le> length (ef_deps (k_effects s e)) \<and>
      (\<forall>d. dep_get s d e \<noteq> None \<longrightarrow> d \<in> set (ef_deps (k_effects s e))) \<and>
      (\<forall>i. i < ef_depsLength (k_effects s e) \<longrightarrow>
           dep_get s (ef_deps (k_effects s e) ! i) e = Some (ef_trackId (k_effects s e))) \<and>
      (\<forall>d. dep_get s d e = Some (ef_trackId (k_effects s e)) \<longrightarrow>
           d \<in> set (take (ef_depsLength (k_effects s e)) (ef_deps (k_effects s e)))) \<and>
      (\<forall>d n. dep_get s d e = Some n \<longrightarrow> n \<le> ef_trackId (k_effects s e)))"

text \<open>
  And of the stores: a dep that has not been made yet has no subscribers, and the deps that
  \<open>targetMap\<close> knows have been made.
\<close>

definition graph_ok :: "kstate \<Rightarrow> bool" where
  "graph_ok s =
     ((\<forall>e. effect_ok s e) \<and>
      (\<forall>d. next_dep s \<le> d \<longrightarrow> dep_entries (k_deps s d) = []) \<and>
      (\<forall>t depsMap key d. targetMap s t = Some depsMap \<and> map_of depsMap key = Some d \<longrightarrow> d < next_dep s))"

text \<open>
  Two states with the same subscription graph: they differ at most in what tracking never
  reads or writes (dirty levels, run counters, flags, the active effect, the pause stacks,
  the queue, the logs, the targets' contents).
\<close>

definition same_graph :: "kstate \<Rightarrow> kstate \<Rightarrow> bool" where
  "same_graph s s' =
     (k_deps s' = k_deps s \<and> targetMap s' = targetMap s \<and> next_dep s' = next_dep s \<and>
      (\<forall>e. ef_deps (k_effects s' e) = ef_deps (k_effects s e) \<and>
           ef_trackId (k_effects s' e) = ef_trackId (k_effects s e) \<and>
           ef_depsLength (k_effects s' e) = ef_depsLength (k_effects s e)))"

text \<open>
  Making a dep outside \<open>track\<close> (\<open>createDep\<close>, as the holder of a single value does), with
  a cleanup that does nothing here.
\<close>

definition new_dep :: "kstate \<Rightarrow> kstate" where
  "new_dep s =
     s\<lparr>k_deps := (k_deps s)(next_dep s := \<lparr>dep_entries = [], dep_cleanup = None\<rparr>),
       next_dep := Suc (next_dep s)\<rparr>"

text \<open>
  The states the kernel can reach from its first state: by \<open>track\<close>, by \<open>trackEffect\<close> on a
  dep that has been made, by \<open>preCleanupEffect\<close> and \<open>postCleanupEffect\<close> (the two ends of
  \<open>run\<close>, and \<open>stop\<close>), by making a dep, and by any step that leaves the subscription
  graph as it is (\<open>trigger\<close> and the scheduling are such steps).
\<close>

inductive reachable :: "kstate \<Rightarrow> bool" where
  reach_init: "reachable k_init"
| reach_track: "reachable s \<Longrightarrow> reachable (track t key s)"
| reach_trackEffect: "reachable s \<Longrightarrow> d < next_dep s \<Longrightarrow> reachable (trackEffect e d s)"
| reach_pre: "reachable s \<Longrightarrow> reachable (preCleanupEffect e s)"
| reach_post: "reachable s \<Longrightarrow> reachable (postCleanupEffect e s)"
| reach_new_dep: "reachable s \<Longrightarrow> reachable (new_dep s)"
| reach_other: "reachable s \<Longrightarrow> same_graph s s' \<Longrightarrow> reachable s'"

text \<open>An effect whose dep list ends at its cursor: no run of it is under way.\<close>

definition settled :: "kstate \<Rightarrow> eid \<Rightarrow> bool" where
  "settled s e = (length (ef_deps (k_effects s e)) = ef_depsLength (k_effects s e))"

text \<open>
  Runs of effects that read properties of target 0. \<open>run_until e ks s\<close> is the run of effect
  \<open>e\<close> from its start (\<open>activeEffect = this\<close>, \<open>preCleanupEffect\<close>) up to the point where its
  body has read the keys \<open>ks\<close>; \<open>run_through e ks s\<close> is the whole run, with \<open>postCleanupEffect\<close> and
  the active effect put back. In \<open>two_reads\<close> effect 0 has run once, reading \<open>a\<close> and \<open>b\<close>. In
  \<open>mid_run\<close> its second run is under way and has read \<open>a\<close>, and effect 1, started from inside
  that run, has run from start to end.
\<close>

definition run_until :: "eid \<Rightarrow> pkey list \<Rightarrow> kstate \<Rightarrow> kstate" where
  "run_until e ks s =
     fold (track 0) ks (preCleanupEffect e (s\<lparr>activeEffect := Some e\<rparr>))"

definition run_through :: "eid \<Rightarrow> pkey list \<Rightarrow> kstate \<Rightarrow> kstate" where
  "run_through e ks s = (postCleanupEffect e (run_until e ks s))\<lparr>activeEffect := activeEffect s\<rparr>"

definition two_reads :: kstate where
  "two_reads = run_through 0 [KStr ''a'', KStr ''b''] k_init"

definition mid_run :: kstate where
  "mid_run = run_through 1 [KStr ''b''] (run_until 0 [KStr ''a''] two_reads)"

section \<open>Reactive arrays and effects that run: definitions\<close>

text \<open>
  From \<open>baseHandlers.ts\<close> (the traps of the mutable, deep handler, on an array of numbers)
  and \<open>effect.ts\<close> (\<open>run\<close>, the \<open>dirty\<close> getter, \<open>effect\<close>). The keys of an array that
  its methods read and write are \<open>length\<close> and the indices; \<open>key_of\<close> is the key as the
  traps get it, a string. (\<open>splice\<close> also reads \<open>constructor\<close>: see \<open>get_prop_trap\<close>.)
\<close>

datatype akey = Length | Index nat

definition key_of :: "akey \<Rightarrow> pkey" where
  "key_of k = (case k of Length \<Rightarrow> KStr ''length'' | Index i \<Rightarrow> KStr (numeral_of i))"

text \<open>
  The raw array: \<open>Reflect.get\<close> (a number, or \<open>None\<close> for \<open>undefined\<close>), \<open>hasOwn\<close>,
  \<open>Reflect.set\<close> and \<open>Reflect.deleteProperty\<close>. A write is to an index, of a number, or to
  \<open>length\<close>, of a length; writing past the end or a longer length leaves empty slots.
\<close>

definition array_get :: "int option list \<Rightarrow> akey \<Rightarrow> int option" where
  "array_get xs k =
     (case k of Length \<Rightarrow> Some (int (length xs))
      | Index i \<Rightarrow> (if i < length xs then xs ! i else None))"

definition hasOwn :: "int option list \<Rightarrow> akey \<Rightarrow> bool" where
  "hasOwn xs k = (case k of Length \<Rightarrow> True | Index i \<Rightarrow> i < length xs \<and> xs ! i \<noteq> None)"

datatype array_write = ToIndex nat int | ToLength nat

definition w_key :: "array_write \<Rightarrow> akey" where
  "w_key w = (case w of ToIndex i v \<Rightarrow> Index i | ToLength n \<Rightarrow> Length)"

definition w_value :: "array_write \<Rightarrow> int" where
  "w_value w = (case w of ToIndex i v \<Rightarrow> v | ToLength n \<Rightarrow> int n)"

definition array_set :: "int option list \<Rightarrow> array_write \<Rightarrow> int option list" where
  "array_set xs w =
     (case w of
        ToIndex i v \<Rightarrow>
          (if i < length xs then xs[i := Some v] else xs @ replicate (i - length xs) None @ [Some v])
      | ToLength n \<Rightarrow> take n xs @ replicate (n - length xs) None)"

definition array_delete :: "int option list \<Rightarrow> nat \<Rightarrow> int option list" where
  "array_delete xs i = (if i < length xs then xs[i := None] else xs)"

subsection \<open>The traps\<close>

text \<open>
  \<open>BaseReactiveHandler.get\<close> with \<open>_isReadonly = false\<close> and \<open>_shallow = false\<close>, at
  \<open>length\<close> or an index: the key is no \<open>ReactiveFlags\<close> key, no instrumented method name,
  not \<open>hasOwnProperty\<close>, no symbol and none of the keys that are never tracked, so the trap
  reads the value, calls \<open>track\<close> and, the value being a number or \<open>undefined\<close>, returns it.
  The value is \<open>array_get\<close> of the array; the trap's effect on the kernel is \<open>get_trap\<close>.
  \<open>has\<close> likewise.
\<close>

definition get_trap :: "tid \<Rightarrow> akey \<Rightarrow> kstate \<Rightarrow> kstate" where
  "get_trap t k s = track t (key_of k) s"

definition has_trap :: "tid \<Rightarrow> akey \<Rightarrow> kstate \<Rightarrow> kstate" where
  "has_trap t k s = track t (key_of k) s"

text \<open>
  \<open>BaseReactiveHandler.get\<close> of the same handler on an array, at any other string key whose
  value is a function, a boolean or \<open>undefined\<close> (as \<open>constructor\<close> is, which \<open>splice\<close>
  reads): the trap returns before it reaches \<open>track\<close> at the four \<open>ReactiveFlags\<close> keys
  it answers itself, at the names of the instrumented methods, at \<open>hasOwnProperty\<close> and at
  the keys of \<open>isNonTrackableKeys\<close>; at every other key it calls \<open>track\<close>.
\<close>

definition untracked_names :: "string list" where
  "untracked_names =
     [''__v_isReactive'', ''__v_isReadonly'', ''__v_isShallow'', ''__v_raw'',
      ''includes'', ''indexOf'', ''lastIndexOf'', ''push'', ''pop'', ''shift'', ''unshift'', ''splice'',
      ''hasOwnProperty'', ''__proto__'', ''__v_isRef'', ''__isVue'']"

definition get_prop_trap :: "tid \<Rightarrow> string \<Rightarrow> kstate \<Rightarrow> kstate" where
  "get_prop_trap t name s = (if name \<in> set untracked_names then s else track t (KStr name) s)"

text \<open>
  \<open>MutableReactiveHandler.set\<close>, called with the proxy of the target as receiver
  (\<open>target === toRaw(receiver)\<close>). Old and new value are numbers or \<open>undefined\<close>: neither
  is readonly, shallow or a ref, and \<open>toRaw\<close> leaves them alone. \<open>hasChanged\<close> is
  \<open>!Object.is\<close>. \<open>None\<close>: \<open>trigger\<close> did not return.
\<close>

definition set_trap ::
  "shared \<Rightarrow> (eid \<Rightarrow> kstate \<Rightarrow> kstate option) \<Rightarrow> nat \<Rightarrow> tid \<Rightarrow> array_write \<Rightarrow> kstate \<Rightarrow> kstate option" where
  "set_trap sh sched fuel t w s =
     (let xs = arrays s t;
          key = w_key w;
          oldValue = array_get xs key;
          hadKey = (if kinds s t = ArrayObject \<and> isIntegerKey sh (key_of key)
                    then js_less (key_number sh (key_of key)) (Num (int (length xs)))
                    else hasOwn xs key);
          s1 = s\<lparr>arrays := (arrays s)(t := array_set xs w)\<rparr>
      in if \<not> hadKey then trigger sh sched fuel t ADD (key_of key) (Num (w_value w)) s1
         else if Some (w_value w) \<noteq> oldValue then
           trigger sh sched fuel t SET (key_of key) (Num (w_value w)) s1
         else Some s1)"

text \<open>\<open>deleteProperty\<close> at an index; \<open>Reflect.deleteProperty\<close> returns \<open>true\<close> there.\<close>

definition delete_trap ::
  "shared \<Rightarrow> (eid \<Rightarrow> kstate \<Rightarrow> kstate option) \<Rightarrow> nat \<Rightarrow> tid \<Rightarrow> nat \<Rightarrow> kstate \<Rightarrow> kstate option" where
  "delete_trap sh sched fuel t i s =
     (let xs = arrays s t;
          hadKey = hasOwn xs (Index i);
          s1 = s\<lparr>arrays := (arrays s)(t := array_delete xs i)\<rparr>
      in if hadKey then trigger sh sched fuel t DELETE (key_of (Index i)) NaN s1 else Some s1)"

subsection \<open>What runs against the proxy\<close>

text \<open>
  A built-in array method called with the proxy as \<open>this\<close>, or any other code that reads
  and writes \<open>length\<close> and indices of the proxy and reads such other properties: a script
  of trap calls, each continuing with what the trap returned (nothing is passed on from
  \<open>GetProp\<close>: the model has no functions as values). \<open>run_script\<close> runs it on target \<open>t\<close>;
  \<open>None\<close> means that a \<open>trigger\<close> did not return.
\<close>

datatype 'r script =
    Done 'r
  | GetLength "nat \<Rightarrow> 'r script"
  | GetIndex nat "int option \<Rightarrow> 'r script"
  | HasIndex nat "bool \<Rightarrow> 'r script"
  | SetIndex nat int "'r script"
  | SetLength nat "'r script"
  | DeleteIndex nat "'r script"
  | GetProp string "'r script"

primrec run_script ::
  "shared \<Rightarrow> (eid \<Rightarrow> kstate \<Rightarrow> kstate option) \<Rightarrow> nat \<Rightarrow> tid \<Rightarrow> 'r script \<Rightarrow> kstate
    \<Rightarrow> ('r \<times> kstate) option" where
  "run_script sh sched fuel t (Done r) s = Some (r, s)"
| "run_script sh sched fuel t (GetLength f) s =
     run_script sh sched fuel t (f (length (arrays s t))) (get_trap t Length s)"
| "run_script sh sched fuel t (GetIndex i f) s =
     run_script sh sched fuel t (f (array_get (arrays s t) (Index i))) (get_trap t (Index i) s)"
| "run_script sh sched fuel t (HasIndex i f) s =
     run_script sh sched fuel t (f (hasOwn (arrays s t) (Index i))) (has_trap t (Index i) s)"
| "run_script sh sched fuel t (SetIndex i v p) s =
     (case set_trap sh sched fuel t (ToIndex i v) s of
        None \<Rightarrow> None
      | Some s' \<Rightarrow> run_script sh sched fuel t p s')"
| "run_script sh sched fuel t (SetLength n p) s =
     (case set_trap sh sched fuel t (ToLength n) s of
        None \<Rightarrow> None
      | Some s' \<Rightarrow> run_script sh sched fuel t p s')"
| "run_script sh sched fuel t (DeleteIndex i p) s =
     (case delete_trap sh sched fuel t i s of
        None \<Rightarrow> None
      | Some s' \<Rightarrow> run_script sh sched fuel t p s')"
| "run_script sh sched fuel t (GetProp name p) s =
     run_script sh sched fuel t p (get_prop_trap t name s)"

subsection \<open>The array methods\<close>

text \<open>
  What the built-in methods do to their \<open>this\<close>, step by step as the language defines
  them: \<open>push\<close>, \<open>pop\<close>, \<open>shift\<close>, \<open>unshift\<close> and \<open>splice\<close>. A method returns a number,
  \<open>undefined\<close> or, for \<open>splice\<close>, a new array.
\<close>

datatype jsval = JUndefined | JNumber int | JArray "int option list"

definition element_val :: "int option \<Rightarrow> jsval" where
  "element_val x = (case x of None \<Rightarrow> JUndefined | Some v \<Rightarrow> JNumber v)"

fun push_items :: "nat \<Rightarrow> int list \<Rightarrow> jsval script" where
  "push_items len [] = SetLength len (Done (JNumber (int len)))"
| "push_items len (v # vs) = SetIndex len v (push_items (Suc len) vs)"

definition raw_push :: "int list \<Rightarrow> jsval script" where
  "raw_push items = GetLength (\<lambda>len. push_items len items)"

definition raw_pop :: "jsval script" where
  "raw_pop =
     GetLength (\<lambda>len.
       if len = 0 then SetLength 0 (Done JUndefined)
       else GetIndex (len - 1) (\<lambda>element.
              DeleteIndex (len - 1) (SetLength (len - 1) (Done (element_val element)))))"

text \<open>Moving the element at \<open>from\<close> to \<open>to\<close>, or the empty slot.\<close>

definition move :: "nat \<Rightarrow> nat \<Rightarrow> 'r script \<Rightarrow> 'r script" where
  "move from to p =
     HasIndex from (\<lambda>fromPresent.
       if fromPresent then
         GetIndex from (\<lambda>fromVal. case fromVal of Some v \<Rightarrow> SetIndex to v p | None \<Rightarrow> DeleteIndex to p)
       else DeleteIndex to p)"

fun shift_from :: "nat \<Rightarrow> nat \<Rightarrow> 'r script \<Rightarrow> 'r script" where
  "shift_from k 0 p = p"
| "shift_from k (Suc n) p = move k (k - 1) (shift_from (Suc k) n p)"

definition raw_shift :: "jsval script" where
  "raw_shift =
     GetLength (\<lambda>len.
       if len = 0 then SetLength 0 (Done JUndefined)
       else GetIndex 0 (\<lambda>first.
              shift_from 1 (len - 1)
                (DeleteIndex (len - 1) (SetLength (len - 1) (Done (element_val first))))))"

fun unshift_from :: "nat \<Rightarrow> nat \<Rightarrow> 'r script \<Rightarrow> 'r script" where
  "unshift_from argCount 0 p = p"
| "unshift_from argCount (Suc k) p = move k (k + argCount) (unshift_from argCount k p)"

fun set_items :: "nat \<Rightarrow> int list \<Rightarrow> 'r script \<Rightarrow> 'r script" where
  "set_items j [] p = p"
| "set_items j (v # vs) p = SetIndex j v (set_items (Suc j) vs p)"

definition raw_unshift :: "int list \<Rightarrow> jsval script" where
  "raw_unshift items =
     GetLength (\<lambda>len.
       (if items \<noteq> [] then unshift_from (length items) len \<circ> set_items 0 items else id)
         (SetLength (len + length items) (Done (JNumber (int (len + length items))))))"

text \<open>
  \<open>splice(start, deleteCount, ...items)\<close> with \<open>start\<close> not negative. The new array comes
  from \<open>ArraySpeciesCreate\<close>, which reads \<open>constructor\<close> of \<open>this\<close>; the elements taken out
  are copied into it (\<open>copy_out\<close>), the rest is moved left or right, the items are written
  and \<open>length\<close> is set.
\<close>

fun copy_out :: "nat \<Rightarrow> nat \<Rightarrow> int option list \<Rightarrow> (int option list \<Rightarrow> 'r script) \<Rightarrow> 'r script" where
  "copy_out from 0 removed cont = cont removed"
| "copy_out from (Suc n) removed cont =
     HasIndex from (\<lambda>fromPresent.
       if fromPresent then GetIndex from (\<lambda>fromValue. copy_out (Suc from) n (removed @ [fromValue]) cont)
       else copy_out (Suc from) n (removed @ [None]) cont)"

definition raw_splice :: "nat \<Rightarrow> nat \<Rightarrow> int list \<Rightarrow> jsval script" where
  "raw_splice start deleteCount items =
     GetLength (\<lambda>len.
       let actualStart = min start len;
           actualDeleteCount = min deleteCount (len - actualStart);
           itemCount = length items
       in GetProp ''constructor''
            (copy_out actualStart actualDeleteCount [] (\<lambda>removed.
               (if itemCount < actualDeleteCount then
                  foldr (\<lambda>k. move (k + actualDeleteCount) (k + itemCount))
                     [actualStart ..< len - actualDeleteCount] \<circ>
                  foldr DeleteIndex (rev [len - actualDeleteCount + itemCount ..< len])
                else if actualDeleteCount < itemCount then
                  foldr (\<lambda>k. move (k + actualDeleteCount - 1) (k + itemCount - 1))
                     (rev [actualStart + 1 ..< len - actualDeleteCount + 1])
                else id)
                 (set_items actualStart items
                    (SetLength (len - actualDeleteCount + itemCount) (Done (JArray removed)))))))"

text \<open>
  The instrumented method that \<open>createArrayInstrumentations\<close> makes of a raw method \<open>p\<close>:
  \<open>pauseTracking(); pauseScheduling(); const res = p.apply(this, args); resetScheduling();
  resetTracking(); return res\<close>.
\<close>

definition instrumented ::
  "shared \<Rightarrow> (eid \<Rightarrow> kstate \<Rightarrow> kstate option) \<Rightarrow> nat \<Rightarrow> tid \<Rightarrow> 'r script \<Rightarrow> kstate
    \<Rightarrow> ('r \<times> kstate) option" where
  "instrumented sh sched fuel t p s =
     (case run_script sh sched fuel t p (pauseScheduling (pauseTracking s)) of
        None \<Rightarrow> None
      | Some (res, s2) \<Rightarrow>
          (case resetScheduling sched fuel s2 of
             None \<Rightarrow> None
           | Some s3 \<Rightarrow> Some (res, resetTracking s3)))"

subsection \<open>Effects that run\<close>

text \<open>
  The function of an effect is a list of statements: a call of an instrumented method of
  the proxy of an array (getting the method from the proxy tracks nothing:
  \<open>BaseReactiveHandler.get\<close> returns the instrumentation before it reaches \<open>track\<close>), or
  plain reads and writes of the proxy. \<open>body e\<close> is the function of effect \<open>e\<close>.
\<close>

datatype stmt = Call tid "jsval script" | Access tid "jsval script"

definition exec_stmt ::
  "shared \<Rightarrow> (eid \<Rightarrow> kstate \<Rightarrow> kstate option) \<Rightarrow> nat \<Rightarrow> stmt \<Rightarrow> kstate \<Rightarrow> kstate option" where
  "exec_stmt sh sched fuel st s =
     (case st of
        Call t p \<Rightarrow> map_option snd (instrumented sh sched fuel t p s)
      | Access t p \<Rightarrow> map_option snd (run_script sh sched fuel t p s))"

fun exec_body ::
  "shared \<Rightarrow> (eid \<Rightarrow> kstate \<Rightarrow> kstate option) \<Rightarrow> nat \<Rightarrow> stmt list \<Rightarrow> kstate \<Rightarrow> kstate option" where
  "exec_body sh sched fuel [] s = Some s"
| "exec_body sh sched fuel (st # sts) s =
     (case exec_stmt sh sched fuel st s of
        None \<Rightarrow> None
      | Some s' \<Rightarrow> exec_body sh sched fuel sts s')"

text \<open>
  \<open>ReactiveEffect.run\<close>. Calling \<open>fn\<close> is logged in \<open>runs\<close>. \<open>None\<close>: \<open>fn\<close> did not
  return.
\<close>

definition effect_run ::
  "shared \<Rightarrow> (eid \<Rightarrow> kstate \<Rightarrow> kstate option) \<Rightarrow> nat \<Rightarrow> (eid \<Rightarrow> stmt list) \<Rightarrow> eid \<Rightarrow> kstate
    \<Rightarrow> kstate option" where
  "effect_run sh sched fuel body e s =
     (let s0 = upd_effect e (\<lambda>ef. ef\<lparr>ef_dirtyLevel := NotDirty\<rparr>) s in
      if \<not> ef_active (k_effects s0 e) then
        exec_body sh sched fuel (body e) (s0\<lparr>runs := runs s0 @ [e]\<rparr>)
      else
        (let lastShouldTrack = shouldTrack s0;
             lastEffect = activeEffect s0;
             s1 = s0\<lparr>shouldTrack := True, activeEffect := Some e\<rparr>;
             s2 = upd_effect e (\<lambda>ef. ef\<lparr>ef_runnings := ef_runnings ef + 1\<rparr>) s1;
             s3 = preCleanupEffect e s2
         in case exec_body sh sched fuel (body e) (s3\<lparr>runs := runs s3 @ [e]\<rparr>) of
              None \<Rightarrow> None
            | Some s4 \<Rightarrow>
                Some ((upd_effect e (\<lambda>ef. ef\<lparr>ef_runnings := ef_runnings ef - 1\<rparr>)
                         (postCleanupEffect e s4))
                      \<lparr>activeEffect := lastEffect, shouldTrack := lastShouldTrack\<rparr>)))"

text \<open>
  The \<open>dirty\<close> getter. No dep of the model belongs to a computed value, so the loop over
  the deps does nothing.
\<close>

definition effect_dirty :: "eid \<Rightarrow> kstate \<Rightarrow> bool \<times> kstate" where
  "effect_dirty e s =
     (let s' = (if ef_dirtyLevel (k_effects s e) = MaybeDirty then
                  (let s1 = pauseTracking s;
                       s2 = (if ef_dirtyLevel (k_effects s1 e) < Dirty
                             then upd_effect e (\<lambda>ef. ef\<lparr>ef_dirtyLevel := NotDirty\<rparr>) s1 else s1)
                   in resetTracking s2)
                else s)
      in (Dirty \<le> ef_dirtyLevel (k_effects s' e), s'))"

text \<open>The scheduler that \<open>effect\<close> gives its effect: \<open>if (_effect.dirty) _effect.run()\<close>.\<close>

definition effect_scheduler ::
  "shared \<Rightarrow> (eid \<Rightarrow> kstate \<Rightarrow> kstate option) \<Rightarrow> nat \<Rightarrow> (eid \<Rightarrow> stmt list) \<Rightarrow> eid \<Rightarrow> kstate
    \<Rightarrow> kstate option" where
  "effect_scheduler sh sched fuel body e s =
     (case effect_dirty e s of
        (dirty, s') \<Rightarrow> if dirty then effect_run sh sched fuel body e s' else Some s')"

text \<open>
  The schedulers call \<open>run\<close>, whose function may trigger, which calls schedulers: the
  nesting gets fuel, the same as the loop of \<open>resetScheduling\<close>.
\<close>

primrec scheduler_of :: "shared \<Rightarrow> (eid \<Rightarrow> stmt list) \<Rightarrow> nat \<Rightarrow> eid \<Rightarrow> kstate \<Rightarrow> kstate option" where
  "scheduler_of sh body 0 = (\<lambda>e s. None)"
| "scheduler_of sh body (Suc n) = effect_scheduler sh (scheduler_of sh body n) n body"

text \<open>\<open>effect(fn)\<close> without options, for the effect \<open>e\<close> it makes: \<open>_effect.run()\<close>.\<close>

definition effect :: "shared \<Rightarrow> (eid \<Rightarrow> stmt list) \<Rightarrow> nat \<Rightarrow> eid \<Rightarrow> kstate \<Rightarrow> kstate option" where
  "effect sh body fuel e s = effect_run sh (scheduler_of sh body fuel) fuel body e s"

subsection \<open>Suspension, in words\<close>

text \<open>
  The three pieces of state behind \<open>pauseTracking\<close>, \<open>resetTracking\<close>, \<open>pauseScheduling\<close>
  and \<open>resetScheduling\<close>. A scheduler is balanced when a call of it that returns leaves
  them as they were. \<open>quiet s s'\<close>: from \<open>s\<close> to \<open>s'\<close> no dep has gained or lost a
  subscriber, no effect's function has been called, and the three are as they were.
\<close>

definition pause_state :: "kstate \<Rightarrow> bool \<times> bool list \<times> int" where
  "pause_state s = (shouldTrack s, trackStack s, pauseScheduleStack s)"

definition balanced :: "(eid \<Rightarrow> kstate \<Rightarrow> kstate option) \<Rightarrow> bool" where
  "balanced sched = (\<forall>e s s'. sched e s = Some s' \<longrightarrow> pause_state s' = pause_state s)"

definition quiet :: "kstate \<Rightarrow> kstate \<Rightarrow> bool" where
  "quiet s s' = (same_graph s s' \<and> runs s' = runs s \<and> pause_state s' = pause_state s)"

text \<open>
  An effect \<open>e\<close> that nothing can reach: it is in the map of no dep and its scheduler is
  not queued. \<open>not_tracking e s\<close>: a \<open>track\<close> call in \<open>s\<close> would not subscribe \<open>e\<close>.
  \<open>spared e s s'\<close>: from \<open>s\<close> to \<open>s'\<close> the effect has stayed out of reach, its fields are
  what they were, its function has not been called, and the active effect is the same. A
  scheduler spares \<open>e\<close> when its calls for other effects, from such states, do.
\<close>

definition unsubscribed :: "eid \<Rightarrow> kstate \<Rightarrow> bool" where
  "unsubscribed e s = ((\<forall>d. dep_get s d e = None) \<and> e \<notin> set (queueEffectSchedulers s))"

definition not_tracking :: "eid \<Rightarrow> kstate \<Rightarrow> bool" where
  "not_tracking e s = (activeEffect s \<noteq> Some e \<or> \<not> shouldTrack s)"

definition spared :: "eid \<Rightarrow> kstate \<Rightarrow> kstate \<Rightarrow> bool" where
  "spared e s s' =
     (unsubscribed e s' \<and> k_effects s' e = k_effects s e \<and>
      count_list (runs s') e = count_list (runs s) e \<and> activeEffect s' = activeEffect s)"

definition spares :: "eid \<Rightarrow> (eid \<Rightarrow> kstate \<Rightarrow> kstate option) \<Rightarrow> bool" where
  "spares e sched =
     (\<forall>e' s s'. e' \<noteq> e \<and> unsubscribed e s \<and> not_tracking e s \<and> sched e' s = Some s' \<longrightarrow>
        spared e s s' \<and> pause_state s' = pause_state s)"

text \<open>A statement that is a call of an instrumented method.\<close>

fun is_call :: "stmt \<Rightarrow> bool" where
  "is_call (Call t p) = True"
| "is_call (Access t p) = False"

subsection \<open>Concrete runs\<close>

text \<open>
  \<open>const arr = reactive([])\<close> is target 0. Effect 0 is \<open>effect(() => arr.push(1))\<close> and
  every other effect is \<open>effect(() => arr.length)\<close>. In \<open>length_read\<close> effect 1 has been
  made; \<open>both_run\<close> makes effect 0 after that, and \<open>trigger_later\<close> is a later
  \<open>trigger(arr, ADD, '1', 5)\<close>; \<open>push_outside\<close> calls \<open>arr.push(1)\<close> after \<open>length_read\<close>
  instead, outside any effect. \<open>array_view\<close> shows the log of runs, the array, the deps
  of effect 0, the scheduler queue and the pause state.
\<close>

definition array_init :: kstate where
  "array_init = k_init\<lparr>kinds := (kinds k_init)(0 := ArrayObject)\<rparr>"

definition bodies :: "eid \<Rightarrow> stmt list" where
  "bodies e = (if e = 0 then [Call 0 (raw_push [1])] else [Access 0 (GetLength (\<lambda>len. Done JUndefined))])"

definition length_read :: "kstate option" where
  "length_read = effect numeral_shared bodies 0 1 array_init"

definition both_run :: "kstate option" where
  "both_run = (case length_read of None \<Rightarrow> None
               | Some s \<Rightarrow> effect numeral_shared bodies (Suc (Suc 0)) 0 s)"

definition push_outside :: "(jsval \<times> kstate) option" where
  "push_outside = (case length_read of None \<Rightarrow> None
                   | Some s \<Rightarrow> instrumented numeral_shared (scheduler_of numeral_shared bodies (Suc 0))
                                (Suc 0) 0 (raw_push [1]) s)"

definition trigger_later :: "kstate option" where
  "trigger_later = (case both_run of None \<Rightarrow> None
                    | Some s \<Rightarrow> trigger numeral_shared (scheduler_of numeral_shared bodies (Suc 0))
                                 (Suc 0) 0 ADD (KStr ''1'') (Num 5) s)"

definition array_view ::
  "kstate \<Rightarrow> eid list \<times> int option list \<times> did list \<times> eid list \<times> bool \<times> bool list \<times> int" where
  "array_view s =
     (runs s, arrays s 0, ef_deps (k_effects s 0), queueEffectSchedulers s, pause_state s)"

text \<open>The array \<open>[1, 2, 3]\<close> as target 0, and what a method call returns and leaves of it.\<close>

definition three :: kstate where
  "three = array_init\<lparr>arrays := (arrays array_init)(0 := [Some 1, Some 2, Some 3])\<rparr>"

definition method_view :: "(jsval \<times> kstate) option \<Rightarrow> (jsval \<times> int option list) option" where
  "method_view r = map_option (map_prod id (\<lambda>s. arrays s 0)) r"

section \<open>Scheduler: sorting and insertion\<close>







lemma mset_insert_stable: "mset (insert_stable cmp x xs) = add_mset x (mset xs)"
  by (induction xs) auto

lemma mset_js_sort: "mset (js_sort cmp xs) = mset xs"
  unfolding js_sort_def by (induction xs) (simp_all add: mset_insert_stable)










lemma length_js_sort: "length (js_sort cmp xs) = length xs"
  using mset_js_sort[of cmp xs] by (metis size_mset)

lemma flush_loop_no_calls:
  "length (queue s) - flushIndex s \<le> n \<Longrightarrow>
   flush_loop (\<lambda>_. []) n s =
     Some (s\<lparr>flushIndex := max (flushIndex s) (length (queue s)),
             ran := ran s @ filter job_active (drop (flushIndex s) (queue s))\<rparr>)"
proof (induction n arbitrary: s)
  case 0
  then show ?case by (simp add: max_def)
next
  case (Suc n)
  show ?case
  proof (cases "flushIndex s < length (queue s)")
    case False
    then show ?thesis by (simp add: max_def)
  next
    case True
    let ?j = "queue s ! flushIndex s"
    let ?s1 = "(if job_active ?j then run_calls [] (s\<lparr>ran := ran s @ [?j]\<rparr>) else s)"
    let ?s2 = "?s1\<lparr>flushIndex := flushIndex ?s1 + 1\<rparr>"
    have q2: "queue ?s2 = queue s" "flushIndex ?s2 = Suc (flushIndex s)"
      by (simp_all add: run_calls_def)
    have "length (queue ?s2) - flushIndex ?s2 \<le> n" using Suc.prems q2 by simp
    from Suc.IH[OF this]
    have "flush_loop (\<lambda>_. []) n ?s2 =
       Some (?s2\<lparr>flushIndex := max (flushIndex ?s2) (length (queue ?s2)),
             ran := ran ?s2 @ filter job_active (drop (flushIndex ?s2) (queue ?s2))\<rparr>)" .
    moreover have "drop (flushIndex s) (queue s) = ?j # drop (Suc (flushIndex s)) (queue s)"
      using True by (simp add: Cons_nth_drop_Suc)
    ultimately show ?thesis using True
      by (simp add: Let_def run_calls_def max_def)
  qed
qed

lemma flushJobs_no_calls:
  "length (queue s) \<le> n \<Longrightarrow>
   flushJobs (\<lambda>_. []) n s =
     Some (s\<lparr>isFlushPending := False, isFlushing := False, queue := [], flushIndex := 0,
             ran := ran s @ filter job_active (js_sort comparator (queue s))\<rparr>)"
  by (simp add: flushJobs_def flush_loop_no_calls length_js_sort)

lemma indexOf_None: "indexOf xs x = None \<longleftrightarrow> x \<notin> set xs"
  by (induction xs) auto

lemma indexOf_Some: "indexOf xs x = Some i \<Longrightarrow>
   i < length xs \<and> xs ! i = x \<and> x \<notin> set (take i xs) \<and> splice_out i xs = remove1 x xs"
proof (induction xs arbitrary: i)
  case Nil
  then show ?case by simp
next
  case (Cons y ys)
  show ?case
  proof (cases "y = x")
    case True
    with Cons.prems show ?thesis by (simp add: splice_out_def)
  next
    case False
    with Cons.prems obtain k where k: "indexOf ys x = Some k" "i = Suc k" by auto
    from Cons.IH[OF k(1)] False k(2) show ?thesis by (simp add: splice_out_def)
  qed
qed

lemma indexOf_in_take: "indexOf xs x = Some i \<Longrightarrow> x \<in> set (take k xs) \<Longrightarrow> i < k"
proof (rule ccontr)
  assume a: "indexOf xs x = Some i" "x \<in> set (take k xs)" "\<not> i < k"
  then have "set (take k xs) \<subseteq> set (take i xs)" by (intro set_take_subset_set_take) simp
  with a(2) indexOf_Some[OF a(1)] show False by blast
qed

lemma invalidateJob_pending:
  assumes "j \<notin> set (take (Suc (flushIndex s)) (queue s))"
  shows "invalidateJob j s = s\<lparr>queue := remove1 j (queue s)\<rparr>"
proof (cases "indexOf (queue s) j")
  case None
  then have "j \<notin> set (queue s)" by (simp add: indexOf_None)
  then show ?thesis using None by (simp add: invalidateJob_def remove1_idem)
next
  case (Some i)
  from indexOf_Some[OF Some] have i: "i < length (queue s)" "queue s ! i = j"
    "splice_out i (queue s) = remove1 j (queue s)" by simp_all
  have "flushIndex s < i"
  proof (rule ccontr)
    assume "\<not> flushIndex s < i"
    then have "i < length (take (Suc (flushIndex s)) (queue s))" using i(1) by simp
    moreover have "take (Suc (flushIndex s)) (queue s) ! i = j"
      using i \<open>\<not> flushIndex s < i\<close> by simp
    ultimately show False using assms by (metis nth_mem)
  qed
  then show ?thesis using Some i(3) by (simp add: invalidateJob_def)
qed

lemma invalidateJob_not_pending:
  assumes "j \<in> set (take (Suc (flushIndex s)) (queue s))"
  shows "invalidateJob j s = s"
proof -
  have "j \<in> set (queue s)" using assms by (meson in_set_takeD)
  then obtain i where i: "indexOf (queue s) j = Some i"
    using indexOf_None[of "queue s" j] by (cases "indexOf (queue s) j") auto
  from indexOf_in_take[OF i assms] show ?thesis using i by (simp add: invalidateJob_def)
qed







subsection \<open>Claims about the scheduler\<close>




text \<open>
  What the guard \<open>i > flushIndex\<close> of \<open>invalidateJob\<close> does. \<open>invalidateJob(j)\<close> removes
  the first occurrence of \<open>j\<close> from the queue when \<open>j\<close> does not occur at an index up to
  \<open>flushIndex\<close>; if \<open>j\<close> was queued once it is then gone from the queue, and a following
  flush (of jobs that queue nothing) does not run it. When \<open>j\<close> occurs at an index up to
  \<open>flushIndex\<close>, the call changes nothing.
\<close>

theorem invalidateJob_guard:
  "(j \<notin> set (take (Suc (flushIndex s)) (queue s)) \<longrightarrow>
      invalidateJob j s = s\<lparr>queue := remove1 j (queue s)\<rparr> \<and>
      (distinct (queue s) \<longrightarrow> j \<notin> set (queue (invalidateJob j s))) \<and>
      (distinct (queue s) \<and> length (queue s) \<le> n \<longrightarrow>
         (\<exists>s'. flushJobs (\<lambda>_. []) n (invalidateJob j s) = Some s' \<and>
               j \<notin> set (drop (length (ran s)) (ran s'))))) \<and>
   (j \<in> set (take (Suc (flushIndex s)) (queue s)) \<longrightarrow> invalidateJob j s = s)"
proof -
  have "distinct (queue s) \<and> length (queue s) \<le> n \<longrightarrow>
         (\<exists>s'. flushJobs (\<lambda>_. []) n (s\<lparr>queue := remove1 j (queue s)\<rparr>) = Some s' \<and>
               j \<notin> set (drop (length (ran s)) (ran s')))"
  proof
    assume a: "distinct (queue s) \<and> length (queue s) \<le> n"
    let ?s = "s\<lparr>queue := remove1 j (queue s)\<rparr>"
    have "length (queue ?s) \<le> n" using a by (auto simp: length_remove1)
    from flushJobs_no_calls[OF this]
    have f: "flushJobs (\<lambda>_. []) n ?s =
      Some (?s\<lparr>isFlushPending := False, isFlushing := False, queue := [], flushIndex := 0,
             ran := ran ?s @ filter job_active (js_sort comparator (queue ?s))\<rparr>)" .
    have "set (js_sort comparator (remove1 j (queue s))) = set (remove1 j (queue s))"
      using mset_js_sort[of comparator "remove1 j (queue s)"] by (metis set_mset_mset)
    then have "j \<notin> set (js_sort comparator (remove1 j (queue s)))" using a by simp
    then show "\<exists>s'. flushJobs (\<lambda>_. []) n ?s = Some s' \<and> j \<notin> set (drop (length (ran s)) (ran s'))"
      using f by simp
  qed
  then show ?thesis
    using invalidateJob_pending[of j s] invalidateJob_not_pending[of j s] by auto
qed

text \<open>The theorem at a queue of two pending jobs, for the second and for the first.\<close>

theorem invalidateJob_guard_witness:
  "queue (invalidateJob child_job two_pending) = [parent_job] \<and>
   child_job \<notin> set (queue (invalidateJob child_job two_pending)) \<and>
   (\<exists>s'. flushJobs (\<lambda>_. []) 2 (invalidateJob child_job two_pending) = Some s' \<and>
         child_job \<notin> set (drop (length (ran two_pending)) (ran s'))) \<and>
   invalidateJob parent_job two_pending = two_pending"
proof -
  have h1: "child_job \<notin> set (take (Suc (flushIndex two_pending)) (queue two_pending))"
    by (simp add: two_pending_def child_job_def parent_job_def)
  have h2: "distinct (queue two_pending) \<and> length (queue two_pending) \<le> 2"
    by (simp add: two_pending_def child_job_def parent_job_def)
  have h3: "parent_job \<in> set (take (Suc (flushIndex two_pending)) (queue two_pending))"
    by (simp add: two_pending_def)
  have e: "remove1 child_job (queue two_pending) = [parent_job]"
    by (simp add: two_pending_def child_job_def parent_job_def)
  from invalidateJob_guard[of child_job two_pending 2] h1 h2
  have A: "invalidateJob child_job two_pending =
      two_pending\<lparr>queue := remove1 child_job (queue two_pending)\<rparr>"
    and B: "child_job \<notin> set (queue (invalidateJob child_job two_pending))"
    and C: "\<exists>s'. flushJobs (\<lambda>_. []) 2 (invalidateJob child_job two_pending) = Some s' \<and>
         child_job \<notin> set (drop (length (ran two_pending)) (ran s'))"
    by blast+
  from invalidateJob_guard[of parent_job two_pending 2] h3
  have D: "invalidateJob parent_job two_pending = two_pending" by blast
  have Q: "queue (invalidateJob child_job two_pending) = [parent_job]"
    by (simp add: A e)
  show ?thesis using Q B C D by blast
qed

text \<open>
  Claim C9 at a job that is queued alone while no flush is running. \<open>flushIndex\<close> is 0
  whenever no flush is running, and the job sits at index 0: \<open>invalidateJob\<close> leaves it in
  the queue although it has not run, and the next flush runs it. (\<open>flushPreFlushCbs\<close>
  starts from \<open>isFlushing ? flushIndex + 1 : 0\<close>: there index 0 counts as pending when no
  flush is running.)
\<close>

theorem invalidateJob_head_not_removed:
  "child_job \<in> set (queue (queueJob child_job sched_init)) \<and>
   ran (queueJob child_job sched_init) = [] \<and>
   queue (invalidateJob child_job (queueJob child_job sched_init)) = [child_job] \<and>
   map_option ran (flushJobs no_calls 1 (invalidateJob child_job (queueJob child_job sched_init)))
     = Some [child_job]"
  by code_simp

section \<open>KeepAlive: the cache\<close>

lemma bit_keep: "bit COMPONENT_SHOULD_KEEP_ALIVE n \<longleftrightarrow> n = 8"
  unfolding COMPONENT_SHOULD_KEEP_ALIVE_def
  by (simp only: bit_push_bit_iff bit_1_iff) auto

lemma bit_kept: "bit COMPONENT_KEPT_ALIVE n \<longleftrightarrow> n = 9"
  unfolding COMPONENT_KEPT_ALIVE_def
  by (simp only: bit_push_bit_iff bit_1_iff) auto

lemma resetShapeFlag_bits:
  "bit (shapeFlag (resetShapeFlag v)) n \<longleftrightarrow> bit (shapeFlag v) n \<and> n \<noteq> 8 \<and> n \<noteq> 9"
  by (auto simp: resetShapeFlag_def bit_and_iff bit_not_iff bit_keep bit_kept dest: bit_imp_le_length)

lemma resetShapeFlag_flags:
  "shapeFlag (resetShapeFlag v) AND COMPONENT_SHOULD_KEEP_ALIVE = 0 \<and>
   shapeFlag (resetShapeFlag v) AND COMPONENT_KEPT_ALIVE = 0"
  by (auto simp: resetShapeFlag_bits bit_and_iff bit_keep bit_kept intro!: bit_eqI)

lemma map_of_map_delete: "map_of (map_delete m k) k' = (if k' = k then None else map_of m k')"
  by (induction m) (auto simp: map_delete_def)

lemma set_set_delete: "set (set_delete ks k) = set ks - {k}"
  by (auto simp: set_delete_def)

lemma set_add_set_delete: "set_add (set_delete ks k) k = removeAll k ks @ [k]"
  by (simp add: set_add_def set_delete_def)

lemma render_cached_hit:
  assumes "map_of (cache s) (cache_key_of (vnodes s r)) = Some c"
  shows "\<exists>res s'. render_cached props raw r s = Inr (res, s') \<and>
     pendingCacheKey s' = Some (cache_key_of (vnodes s r)) \<and>
     keys s' = removeAll (cache_key_of (vnodes s r)) (keys s) @ [cache_key_of (vnodes s r)] \<and>
     cache s' = cache s \<and> unmounted s' = unmounted s"
  using assms
  by (simp add: render_cached_def Let_def set_add_set_delete split: prod.splits)

lemma render_cached_miss_keep:
  assumes "map_of (cache s) (cache_key_of (vnodes s r)) = None"
    and "\<not> (max_truthy (p_max props) \<and>
            length (set_add (keys s) (cache_key_of (vnodes s r))) > parseInt_max (p_max props))"
  shows "\<exists>res s'. render_cached props raw r s = Inr (res, s') \<and>
     pendingCacheKey s' = Some (cache_key_of (vnodes s r)) \<and>
     keys s' = set_add (keys s) (cache_key_of (vnodes s r)) \<and>
     cache s' = cache s \<and> unmounted s' = unmounted s"
  using assms
  by (auto simp add: render_cached_def Let_def split: prod.splits)

lemma pruneCacheEntry_result:
  assumes "map_of (cache s) k = Some c"
  shows "\<exists>s'. pruneCacheEntry k s = Inr s' \<and> cache s' = map_delete (cache s) k \<and>
     keys s' = set_delete (keys s) k \<and> pendingCacheKey s' = pendingCacheKey s \<and>
     current s' = current s \<and> next_ref s' = next_ref s \<and>
     set (unmounted s') \<subseteq> set (unmounted s) \<union> {c}"
  using assms
  by (auto simp: pruneCacheEntry_def Let_def unmount_def split: option.splits)

lemma render_cached_miss_evict:
  assumes "map_of (cache s) (cache_key_of (vnodes s r)) = None"
    and "max_truthy (p_max props)"
    and "length (set_add (keys s) (cache_key_of (vnodes s r))) > parseInt_max (p_max props)"
    and "map_of (cache s) (hd (set_add (keys s) (cache_key_of (vnodes s r)))) = Some c"
  shows "\<exists>res s'. render_cached props raw r s = Inr (res, s') \<and>
     pendingCacheKey s' = Some (cache_key_of (vnodes s r)) \<and>
     keys s' = set_delete (set_add (keys s) (cache_key_of (vnodes s r)))
                 (hd (set_add (keys s) (cache_key_of (vnodes s r)))) \<and>
     cache s' = map_delete (cache s) (hd (set_add (keys s) (cache_key_of (vnodes s r)))) \<and>
     set (unmounted s') \<subseteq> set (unmounted s) \<union> {c}"
proof -
  let ?key = "cache_key_of (vnodes s r)"
  let ?old = "hd (set_add (keys s) ?key)"
  obtain r1 s1 where rs: "(r1, s1) =
            (if vn_el (vnodes s r) \<noteq> None then
               (let n = next_ref s;
                    sa = s\<lparr>vnodes := (vnodes s)(n := vnodes s r), next_ref := Suc n\<rparr>
                in (n, if shapeFlag (vnodes s raw) AND SUSPENSE \<noteq> 0
                       then sa\<lparr>vnodes := (vnodes sa)(raw := (vnodes sa raw)\<lparr>ssContent := Some n\<rparr>)\<rparr>
                       else sa))
             else (r, s))"
    by metis
  then have s1: "cache s1 = cache s" "keys s1 = keys s" "unmounted s1 = unmounted s"
    by (auto simp: Let_def split: if_splits)
  let ?s2 = "s1\<lparr>pendingCacheKey := Some ?key, keys := set_add (keys s1) ?key\<rparr>"
  have "map_of (cache ?s2) ?old = Some c" using assms(4) s1 by simp
  from pruneCacheEntry_result[OF this] obtain s3 where s3:
    "pruneCacheEntry ?old ?s2 = Inr s3" "cache s3 = map_delete (cache ?s2) ?old"
    "keys s3 = set_delete (keys ?s2) ?old" "pendingCacheKey s3 = pendingCacheKey ?s2"
    "set (unmounted s3) \<subseteq> set (unmounted ?s2) \<union> {c}"
    by blast
  have "render_cached props raw r s =
      Inr (if shapeFlag (vnodes s raw) AND SUSPENSE \<noteq> 0 then raw else r1,
           s3\<lparr>vnodes := (vnodes s3)(r1 := (vnodes s3 r1)\<lparr>shapeFlag :=
                               shapeFlag (vnodes s3 r1) OR COMPONENT_SHOULD_KEEP_ALIVE\<rparr>),
              current := Some r1\<rparr>)"
    unfolding render_cached_def Let_def rs[symmetric, unfolded Let_def]
    using assms(1,2,3) s1 s3(1) by simp
  then show ?thesis using s3 s1 by simp
qed

lemmas ka_eval = mount_child_def render_def render_cached_def Let_def ka_init_def props_max_def
  no_name_def getInnerChild_def component_vnode_def cache_key_of_def cacheSubtree_def
  STATEFUL_COMPONENT_def SUSPENSE_def set_add_def set_delete_def pruneCacheEntry_def
  isSameVNodeType_def unmount_def map_delete_def COMPONENT_SHOULD_KEEP_ALIVE_def
  COMPONENT_KEPT_ALIVE_def ka_view_def ka_two_def

subsection \<open>Claims about KeepAlive\<close>

text \<open>
  Claim C7, as the code has it. The cache key of a VNode is its \<open>key\<close> when it has one,
  else its component descriptor, and the render function records it as the pending key.
  On a cache hit the key is deleted from the key set and added again, which makes it the
  last (freshest); cache and unmount log are unchanged. On a cache miss the key is added;
  when \<open>max\<close> is truthy (a number other than 0, or a string) and the key set is larger than
  \<open>parseInt(max)\<close>, the first key of the set, if it is cached, is deleted from cache and key
  set, and otherwise nothing is evicted. With \<open>max = 2\<close>, mounting A, B and C in turn
  leaves B and C cached, C current, and A unmounted.
\<close>

theorem keepalive_lru_amended:
  "(map_of (cache s) (cache_key_of (vnodes s r)) \<noteq> None \<longrightarrow>
      (\<exists>res s'. render_cached props raw r s = Inr (res, s') \<and>
         pendingCacheKey s' = Some (cache_key_of (vnodes s r)) \<and>
         keys s' = removeAll (cache_key_of (vnodes s r)) (keys s) @ [cache_key_of (vnodes s r)] \<and>
         cache s' = cache s \<and> unmounted s' = unmounted s)) \<and>
   (map_of (cache s) (cache_key_of (vnodes s r)) = None \<and>
    \<not> (max_truthy (p_max props) \<and>
       length (set_add (keys s) (cache_key_of (vnodes s r))) > parseInt_max (p_max props)) \<longrightarrow>
      (\<exists>res s'. render_cached props raw r s = Inr (res, s') \<and>
         pendingCacheKey s' = Some (cache_key_of (vnodes s r)) \<and>
         keys s' = set_add (keys s) (cache_key_of (vnodes s r)) \<and>
         cache s' = cache s \<and> unmounted s' = unmounted s)) \<and>
   (map_of (cache s) (cache_key_of (vnodes s r)) = None \<and>
    max_truthy (p_max props) \<and>
    length (set_add (keys s) (cache_key_of (vnodes s r))) > parseInt_max (p_max props) \<and>
    map_of (cache s) (hd (set_add (keys s) (cache_key_of (vnodes s r)))) = Some c \<longrightarrow>
      (\<exists>res s'. render_cached props raw r s = Inr (res, s') \<and>
         pendingCacheKey s' = Some (cache_key_of (vnodes s r)) \<and>
         keys s' = set_delete (set_add (keys s) (cache_key_of (vnodes s r)))
                     (hd (set_add (keys s) (cache_key_of (vnodes s r)))) \<and>
         cache s' = map_delete (cache s) (hd (set_add (keys s) (cache_key_of (vnodes s r)))) \<and>
         set (unmounted s') \<subseteq> set (unmounted s) \<union> {c})) \<and>
   cache_key_of v = (case vn_key v of None \<Rightarrow> ByComp (vn_type v) | Some k \<Rightarrow> ByKey k) \<and>
   map_sum id ka_view (mount_children (props_max (MaxNumber 2)) no_name [1, 2, 3] ka_init) =
     Inr ([ByComp 2, ByComp 3], [(ByComp 2, 2), (ByComp 3, 3)], Some 3, [1])"
proof -
  have scen: "map_sum id ka_view (mount_children (props_max (MaxNumber 2)) no_name [1, 2, 3] ka_init) =
     Inr ([ByComp 2, ByComp 3], [(ByComp 2, 2), (ByComp 3, 3)], Some 3, [1])"
    by (simp add: ka_eval)
  show ?thesis
    using render_cached_hit[of s r _ props raw] render_cached_miss_keep[of s r props raw]
      render_cached_miss_evict[of s r props c raw] scen
    by (auto simp: cache_key_of_def)
qed

text \<open>
  The theorem at a KeepAlive that caches A and B and shows B: rendering A again is a hit;
  rendering C is a miss that evicts nothing under \<open>max = 3\<close> and evicts A under \<open>max = 2\<close>.
\<close>

theorem keepalive_lru_amended_witness:
  "(\<exists>res s'. render_cached (props_max (MaxNumber 2)) 1 1 ka_two = Inr (res, s') \<and>
      pendingCacheKey s' = Some (ByComp 1) \<and>
      keys s' = [ByComp 2, ByComp 1] \<and> cache s' = cache ka_two \<and> unmounted s' = []) \<and>
   (\<exists>res s'. render_cached (props_max (MaxNumber 3)) 3 3 ka_two = Inr (res, s') \<and>
      pendingCacheKey s' = Some (ByComp 3) \<and>
      keys s' = [ByComp 1, ByComp 2, ByComp 3] \<and> cache s' = cache ka_two \<and> unmounted s' = []) \<and>
   (\<exists>res s'. render_cached (props_max (MaxNumber 2)) 3 3 ka_two = Inr (res, s') \<and>
      pendingCacheKey s' = Some (ByComp 3) \<and>
      keys s' = [ByComp 2, ByComp 3] \<and> cache s' = [(ByComp 2, 2)] \<and>
      set (unmounted s') \<subseteq> {1})"
proof -
  have k: "cache_key_of (vnodes ka_two 1) = ByComp 1" "cache_key_of (vnodes ka_two 3) = ByComp 3"
    "cache ka_two = [(ByComp 1, 1), (ByComp 2, 2)]" "keys ka_two = [ByComp 1, ByComp 2]"
    "unmounted ka_two = []"
    by (simp_all add: ka_two_def cache_key_of_def component_vnode_def)
  have h1: "map_of (cache ka_two) (cache_key_of (vnodes ka_two 1)) \<noteq> None"
    unfolding k by simp
  have h2: "map_of (cache ka_two) (cache_key_of (vnodes ka_two 3)) = None \<and>
    \<not> (max_truthy (p_max (props_max (MaxNumber 3))) \<and>
       length (set_add (keys ka_two) (cache_key_of (vnodes ka_two 3)))
         > parseInt_max (p_max (props_max (MaxNumber 3))))"
    unfolding k by (simp add: props_max_def set_add_def)
  have h3: "map_of (cache ka_two) (cache_key_of (vnodes ka_two 3)) = None \<and>
    max_truthy (p_max (props_max (MaxNumber 2))) \<and>
    length (set_add (keys ka_two) (cache_key_of (vnodes ka_two 3)))
      > parseInt_max (p_max (props_max (MaxNumber 2))) \<and>
    map_of (cache ka_two) (hd (set_add (keys ka_two) (cache_key_of (vnodes ka_two 3)))) = Some 1"
    unfolding k by (simp add: props_max_def set_add_def)
  have e: "removeAll (ByComp 1) [ByComp 1, ByComp 2] @ [ByComp 1] = [ByComp 2, ByComp 1]"
    "set_add [ByComp 1, ByComp 2] (ByComp 3) = [ByComp 1, ByComp 2, ByComp 3]"
    "set_delete [ByComp 1, ByComp 2, ByComp 3] (hd [ByComp 1, ByComp 2, ByComp 3]) = [ByComp 2, ByComp 3]"
    "map_delete [(ByComp 1, 1), (ByComp 2, 2)] (hd [ByComp 1, ByComp 2, ByComp (3::nat)]) = [(ByComp 2, 2::nat)]"
    by (simp_all add: set_add_def set_delete_def map_delete_def)
  from keepalive_lru_amended[of ka_two 1 "props_max (MaxNumber 2)" 1] h1
  have A: "\<exists>res s'. render_cached (props_max (MaxNumber 2)) 1 1 ka_two = Inr (res, s') \<and>
         pendingCacheKey s' = Some (cache_key_of (vnodes ka_two 1)) \<and>
         keys s' = removeAll (cache_key_of (vnodes ka_two 1)) (keys ka_two) @
            [cache_key_of (vnodes ka_two 1)] \<and>
         cache s' = cache ka_two \<and> unmounted s' = unmounted ka_two"
    by blast
  from keepalive_lru_amended[of ka_two 3 "props_max (MaxNumber 3)" 3] h2
  have B: "\<exists>res s'. render_cached (props_max (MaxNumber 3)) 3 3 ka_two = Inr (res, s') \<and>
         pendingCacheKey s' = Some (cache_key_of (vnodes ka_two 3)) \<and>
         keys s' = set_add (keys ka_two) (cache_key_of (vnodes ka_two 3)) \<and>
         cache s' = cache ka_two \<and> unmounted s' = unmounted ka_two"
    by blast
  from keepalive_lru_amended[of ka_two 3 "props_max (MaxNumber 2)" 3 1] h3
  have C: "\<exists>res s'. render_cached (props_max (MaxNumber 2)) 3 3 ka_two = Inr (res, s') \<and>
         pendingCacheKey s' = Some (cache_key_of (vnodes ka_two 3)) \<and>
         keys s' = set_delete (set_add (keys ka_two) (cache_key_of (vnodes ka_two 3)))
                     (hd (set_add (keys ka_two) (cache_key_of (vnodes ka_two 3)))) \<and>
         cache s' = map_delete (cache ka_two) (hd (set_add (keys ka_two) (cache_key_of (vnodes ka_two 3)))) \<and>
         set (unmounted s') \<subseteq> set (unmounted ka_two) \<union> {1}"
    by blast
  show ?thesis
    using A B C unfolding k e by simp
qed

text \<open>
  Claim C7 as stated fails: with \<open>max\<close> set to the number 0 the test \<open>max && ...\<close> is
  false, so after A and B are mounted the key set has two keys, more than \<open>max\<close>, and
  nothing has been evicted.
\<close>

theorem keepalive_lru_counterexample:
  "map_sum id ka_view (mount_children (props_max (MaxNumber 0)) no_name [1, 2] ka_init) =
     Inr ([ByComp 1, ByComp 2], [(ByComp 1, 1), (ByComp 2, 2)], Some 2, [])"
  by (simp add: ka_eval)

text \<open>
  Claim C10. For a key \<open>k\<close> with a cached VNode: when there is a current VNode of the same
  type and key, \<open>pruneCacheEntry\<close> only resets the keep-alive flags of the current VNode
  and deletes \<open>k\<close> from cache and key set; the renderer's \<open>unmount\<close> is not called. In every
  other case the cached VNode has its flags reset and is unmounted, and \<open>k\<close> is deleted.
  Deleting \<open>k\<close> leaves the other cache entries alone. Resetting the flags clears bits 8 and
  9 (\<open>COMPONENT_SHOULD_KEEP_ALIVE\<close>, \<open>COMPONENT_KEPT_ALIVE\<close>) of the shape flag and changes
  nothing else of the VNode.
\<close>

theorem pruneCacheEntry_spares_current:
  "(map_of (cache s) k = Some c \<longrightarrow>
     (\<forall>cur. current s = Some cur \<and> isSameVNodeType (vnodes s c) (vnodes s cur) \<longrightarrow>
        pruneCacheEntry k s =
          Inr (s\<lparr>vnodes := (vnodes s)(cur := resetShapeFlag (vnodes s cur)),
                 cache := map_delete (cache s) k, keys := set_delete (keys s) k\<rparr>)) \<and>
     ((\<forall>cur. current s = Some cur \<longrightarrow> \<not> isSameVNodeType (vnodes s c) (vnodes s cur)) \<longrightarrow>
        pruneCacheEntry k s =
          Inr (s\<lparr>vnodes := (vnodes s)(c := resetShapeFlag (vnodes s c)),
                 unmounted := unmounted s @ [c],
                 cache := map_delete (cache s) k, keys := set_delete (keys s) k\<rparr>)) \<and>
     (\<forall>s'. pruneCacheEntry k s = Inr s' \<longrightarrow>
        map_of (cache s') k = None \<and> k \<notin> set (keys s') \<and>
        (\<forall>k'. k' \<noteq> k \<longrightarrow> map_of (cache s') k' = map_of (cache s) k'))) \<and>
     (\<forall>v n. bit (shapeFlag (resetShapeFlag v)) n = (bit (shapeFlag v) n \<and> n \<noteq> 8 \<and> n \<noteq> 9)) \<and>
     (\<forall>v. (resetShapeFlag v)\<lparr>shapeFlag := shapeFlag v\<rparr> = v)"
proof (intro impI conjI allI)
  fix cur
  assume "map_of (cache s) k = Some c"
    "current s = Some cur \<and> isSameVNodeType (vnodes s c) (vnodes s cur)"
  then show "pruneCacheEntry k s =
          Inr (s\<lparr>vnodes := (vnodes s)(cur := resetShapeFlag (vnodes s cur)),
                 cache := map_delete (cache s) k, keys := set_delete (keys s) k\<rparr>)"
    by (simp add: pruneCacheEntry_def Let_def)
next
  assume "map_of (cache s) k = Some c"
    "\<forall>cur. current s = Some cur \<longrightarrow> \<not> isSameVNodeType (vnodes s c) (vnodes s cur)"
  then show "pruneCacheEntry k s =
          Inr (s\<lparr>vnodes := (vnodes s)(c := resetShapeFlag (vnodes s c)),
                 unmounted := unmounted s @ [c],
                 cache := map_delete (cache s) k, keys := set_delete (keys s) k\<rparr>)"
    by (cases "current s") (simp_all add: pruneCacheEntry_def Let_def unmount_def)
next
  fix s'
  assume a: "map_of (cache s) k = Some c" "pruneCacheEntry k s = Inr s'"
  then have "cache s' = map_delete (cache s) k \<and> keys s' = set_delete (keys s) k"
    by (auto simp: pruneCacheEntry_def Let_def unmount_def split: option.splits if_splits)
  then show "map_of (cache s') k = None" "k \<notin> set (keys s')"
    by (simp_all add: map_of_map_delete set_set_delete)
  fix k' assume "k' \<noteq> k"
  then show "map_of (cache s') k' = map_of (cache s) k'"
    using \<open>cache s' = map_delete (cache s) k \<and> keys s' = set_delete (keys s) k\<close>
    by (simp add: map_of_map_delete)
next
  fix v n
  show "bit (shapeFlag (resetShapeFlag v)) n = (bit (shapeFlag v) n \<and> n \<noteq> 8 \<and> n \<noteq> 9)"
    by (rule resetShapeFlag_bits)
next
  fix v show "(resetShapeFlag v)\<lparr>shapeFlag := shapeFlag v\<rparr> = v"
    by (simp add: resetShapeFlag_def)
qed

text \<open>
  The theorem at a KeepAlive that caches A and B and shows B: pruning B's entry spares B,
  pruning A's entry unmounts A.
\<close>

theorem pruneCacheEntry_spares_current_witness:
  "map_sum id ka_view (pruneCacheEntry (ByComp 2) ka_two) =
     Inr ([ByComp 1], [(ByComp 1, 1)], Some 2, []) \<and>
   map_sum id ka_view (pruneCacheEntry (ByComp 1) ka_two) =
     Inr ([ByComp 2], [(ByComp 2, 2)], Some 2, [1])"
proof -
  have c: "map_of (cache ka_two) (ByComp 2) = Some 2" "map_of (cache ka_two) (ByComp 1) = Some 1"
    "current ka_two = Some 2"
    by (simp_all add: ka_two_def)
  have same: "isSameVNodeType (vnodes ka_two 2) (vnodes ka_two 2)"
    by (simp add: isSameVNodeType_def)
  have diff: "\<forall>cur. current ka_two = Some cur \<longrightarrow>
      \<not> isSameVNodeType (vnodes ka_two 1) (vnodes ka_two cur)"
    by (simp add: ka_two_def isSameVNodeType_def component_vnode_def)
  from pruneCacheEntry_spares_current[of ka_two "ByComp 2" 2] c same
  have A: "pruneCacheEntry (ByComp 2) ka_two =
      Inr (ka_two\<lparr>vnodes := (vnodes ka_two)(2 := resetShapeFlag (vnodes ka_two 2)),
             cache := map_delete (cache ka_two) (ByComp 2),
             keys := set_delete (keys ka_two) (ByComp 2)\<rparr>)"
    by blast
  from pruneCacheEntry_spares_current[of ka_two "ByComp 1" 1] c diff
  have B: "pruneCacheEntry (ByComp 1) ka_two =
      Inr (ka_two\<lparr>vnodes := (vnodes ka_two)(1 := resetShapeFlag (vnodes ka_two 1)),
             unmounted := unmounted ka_two @ [1],
             cache := map_delete (cache ka_two) (ByComp 1),
             keys := set_delete (keys ka_two) (ByComp 1)\<rparr>)"
    by blast
  show ?thesis unfolding A B
    by (simp add: ka_view_def ka_two_def map_delete_def set_delete_def)
qed

section \<open>The proxy registry\<close>

lemma reg_ok_createReactive: "reg_ok s \<Longrightarrow> reg_ok (snd (createReactive x a b s))"
  unfolding reg_ok_def createReactive_def
  by (auto simp: less_Suc_eq)

lemma reg_ok_reactive: "reg_ok s \<Longrightarrow> reg_ok (snd (reactive x s))"
proof (cases "reactiveMap s x")
  case None
  assume ok: "reg_ok s"
  have "proxies s (next_obj s) = None"
    using ok unfolding reg_ok_def by (metis less_irrefl not_Some_eq)
  then show ?thesis using ok None
    unfolding reg_ok_def reactive_def createReactive_def
    by (auto simp: less_Suc_eq)
next
  case (Some p)
  assume "reg_ok s"
  then show ?thesis using Some by (simp add: reactive_def)
qed

lemma reg_ok_step: "reg_ok s \<Longrightarrow> reg_ok (reg_step s c)"
proof (cases c)
  case NewObject
  assume "reg_ok s"
  then show ?thesis using NewObject unfolding reg_ok_def by (auto simp: less_Suc_eq)
qed (simp_all add: reg_ok_reactive reg_ok_createReactive shallowReactive_def readonly_def
      shallowReadonly_def)

lemma reg_ok_run: "reg_ok s \<Longrightarrow> reg_ok (reg_run cs s)"
  unfolding reg_run_def by (induction cs arbitrary: s) (simp_all add: reg_ok_step)

lemma reg_ok_init: "reg_ok reg_init"
  by (simp add: reg_ok_def reg_init_def)


lemma registered_step: "reg_ok s \<Longrightarrow> registered s x p \<Longrightarrow> registered (reg_step s c) x p"
proof -
  assume ok: "reg_ok s" and r: "registered s x p"
  have fresh: "proxies s (next_obj s) = None"
    using ok unfolding reg_ok_def by (metis less_irrefl not_Some_eq)
  have pn: "p \<noteq> next_obj s" using r fresh by (auto simp: registered_def raw_get_def)
  show ?thesis
    using r pn
    by (cases c)
       (auto simp: registered_def raw_get_def reactive_def createReactive_def shallowReactive_def
          readonly_def shallowReadonly_def split: option.splits)
qed

lemma registered_run: "reg_ok s \<Longrightarrow> registered s x p \<Longrightarrow> registered (reg_run cs s) x p"
  unfolding reg_run_def
  by (induction cs arbitrary: s) (simp_all add: registered_step reg_ok_step)

lemma registered_reactive: "reg_ok s \<Longrightarrow> registered (snd (reactive x s)) x (fst (reactive x s))"
  unfolding registered_def raw_get_def reactive_def createReactive_def reg_ok_def
  by (auto split: option.splits)

lemma reactive_registered: "registered s x p \<Longrightarrow> reactive x s = (p, s)"
  by (simp add: registered_def reactive_def)

subsection \<open>Claim about the proxy registry\<close>

text \<open>
  Claim C5, as the code has it. In every registry that a program can reach, wrapping an
  object \<open>x\<close> with \<open>reactive\<close> gives a proxy \<open>p\<close> such that, whatever is made and wrapped
  afterwards, \<open>reactive(x)\<close> returns \<open>p\<close> again and changes nothing, and the raw escape of
  \<open>p\<close> is \<open>x\<close>. The handler of part_006 answers the key \<open>RAW\<close> with its target whenever
  the receiver is the proxy that the registry of the handler's kind holds for the target.
\<close>

theorem reactive_registry_amended:
  "(let s = reg_run earlier reg_init;
        (p, s1) = reactive x s;
        s2 = reg_run later s1
    in reactive x s2 = (p, s2) \<and> raw_get s2 p = Some x) \<and>
   ((if isReadonly
     then (if shallow then g_shallowReadonlyMap maps else g_readonlyMap maps)
     else (if shallow then g_shallowReactiveMap maps else g_reactiveMap maps)) tgt = Some receiver \<longrightarrow>
      handler_get isReadonly shallow maps getPrototypeOf tgt RAW receiver = RObj tgt)"
proof -
  define s where "s = reg_run earlier reg_init"
  have ok: "reg_ok s" unfolding s_def by (rule reg_ok_run[OF reg_ok_init])
  obtain p s1 where r: "reactive x s = (p, s1)" by (cases "reactive x s")
  have ok1: "reg_ok s1" using reg_ok_reactive[OF ok, of x] r by simp
  have "registered s1 x p" using registered_reactive[OF ok, of x] r by simp
  from registered_run[OF ok1 this]
  have reg: "registered (reg_run later s1) x p" .
  have "reactive x (reg_run later s1) = (p, reg_run later s1) \<and>
      raw_get (reg_run later s1) p = Some x"
    using reactive_registered[OF reg] reg by (simp add: registered_def)
  then show ?thesis
    using r unfolding s_def[symmetric] by (simp add: handler_get_def)
qed

text \<open>
  The theorem at one object that is wrapped, then wrapped again after a second object has
  been made and wrapped in three ways; and at the handler of a reactive proxy.
\<close>

theorem reactive_registry_amended_witness:
  "reactive 0 (reg_run [NewObject, ShallowReactive 2, Readonly 2, Reactive 2] (snd first_wrap)) =
     (fst first_wrap, reg_run [NewObject, ShallowReactive 2, Readonly 2, Reactive 2] (snd first_wrap)) \<and>
   raw_get (reg_run [NewObject, ShallowReactive 2, Readonly 2, Reactive 2] (snd first_wrap))
     (fst first_wrap) = Some 0 \<and>
   handler_get False False one_proxy null_proto 0 RAW 1 = RObj 0"
proof -
  have h: "(if False
     then (if False then g_shallowReadonlyMap one_proxy else g_readonlyMap one_proxy)
     else (if False then g_shallowReactiveMap one_proxy else g_reactiveMap one_proxy)) 0 = Some 1"
    by (simp add: one_proxy_def)
  from reactive_registry_amended[of "[NewObject]" 0
      "[NewObject, ShallowReactive 2, Readonly 2, Reactive 2]" False False one_proxy 0 1 null_proto] h
  show ?thesis
    by (simp add: first_wrap_def Let_def split: prod.splits)
qed

text \<open>
  Claim C5 as stated fails: \<open>reactive\<close> looks its argument up among the keys of
  \<open>reactiveMap\<close>, which are the raw objects, so for the proxy of an object it finds nothing
  and makes a new proxy. Wrapping object 0 gives proxy 1; wrapping proxy 1 gives proxy 2.
\<close>

theorem reactive_registry_counterexample:
  "fst first_wrap = 1 \<and> fst (reactive (fst first_wrap) (snd first_wrap)) = 2"
  by (simp add: first_wrap_def reactive_def createReactive_def reg_run_def reg_init_def)

section \<open>Parser whitespace handling\<close>

lemma condense_from_collapse:
  "condense_from False str = collapse_runs str \<and>
   condense_from True str = collapse_runs (dropWhile isWhitespace str)"
  by (induction str) simp_all

lemma condense_collapse: "condense str = collapse_runs str"
  by (simp add: condense_def condense_from_collapse)

lemma condense_nodes_rule:
  "no_adjacent_text nodes \<Longrightarrow> slot_matches prev before nodes \<Longrightarrow>
   List.map_filter (\<lambda>n. n) (condense_nodes sc prev nodes) = whitespace_rule sc before nodes"
proof (induction nodes arbitrary: prev before)
  case Nil
  then show ?case by simp
next
  case (Cons node rest)
  have nat_rest: "no_adjacent_text rest" using Cons.prems(1) by (cases rest) auto
  show ?case
  proof (cases node)
    case (Text content)
    have pb: "(prev = None \<and> before = None) \<or> (\<exists>p b. prev = Some p \<and> before = Some b \<and> same_kind p b)"
      using Cons.prems(2) Text by (auto simp: slot_matches_def split: option.splits)
    have hd_rest: "rest \<noteq> [] \<Longrightarrow> \<not> is_text (hd rest)"
      using Cons.prems(1) Text by (cases rest) auto
    have dec: "(prev = None \<or> rest = [] \<or>
            (sc \<and>
             ((is_comment (the prev) \<and> (is_comment (hd rest) \<or> is_element (hd rest))) \<or>
              (is_element (the prev) \<and>
               (is_comment (hd rest) \<or> (is_element (hd rest) \<and> hasNewlineChar content))))))
        = whitespace_goes sc before content (case rest of [] \<Rightarrow> None | n # _ \<Rightarrow> Some n)"
      using pb by (cases rest) (auto simp: whitespace_goes_def same_kind_def)
    have m1: "slot_matches None (Some node) rest"
      using hd_rest Text by (cases rest) (auto simp: slot_matches_def)
    have m2: "slot_matches (Some (Text x)) (Some node) rest" for x
      using Text by (simp add: slot_matches_def same_kind_def)
    show ?thesis
      using Text dec Cons.IH[OF nat_rest m1] Cons.IH[OF nat_rest m2]
      by (cases sc) (auto simp: condense_collapse)
  next
    case (Element t)
    have "slot_matches (Some node) (Some node) rest" by (simp add: slot_matches_def same_kind_def)
    from Cons.IH[OF nat_rest this] Element show ?thesis by simp
  next
    case (Comment c)
    have "slot_matches (Some node) (Some node) rest" by (simp add: slot_matches_def same_kind_def)
    from Cons.IH[OF nat_rest this] Comment show ?thesis by simp
  next
    case (Interpolation c)
    have "slot_matches (Some node) (Some node) rest" by (simp add: slot_matches_def same_kind_def)
    from Cons.IH[OF nat_rest this] Interpolation show ?thesis by simp
  qed
qed

lemma map_filter_Some: "List.map_filter (\<lambda>n. n) (map (\<lambda>n. Some (f n)) xs) = map f xs"
  by (induction xs) simp_all

lemma condense_from_keeps: "filter (\<lambda>c. \<not> isWhitespace c) (condense_from b str) = filter (\<lambda>c. \<not> isWhitespace c) str"
  by (induction str arbitrary: b) (auto simp: isWhitespace_def)

lemma condense_from_space: "c \<in> set (condense_from b str) \<Longrightarrow> isWhitespace c \<Longrightarrow> c = Space"
  by (induction str arbitrary: b) (auto split: if_splits)

lemma condense_from_no_run:
  "no_whitespace_run (condense_from b str) \<and>
   (b \<longrightarrow> (case condense_from b str of [] \<Rightarrow> True | c # _ \<Rightarrow> \<not> isWhitespace c))"
proof (induction str arbitrary: b)
  case Nil
  then show ?case by simp
next
  case (Cons c str)
  show ?case
  proof (cases "isWhitespace c")
    case True
    then show ?thesis using Cons[of True]
      by (cases "condense_from True str") (auto simp: isWhitespace_def)
  next
    case False
    then show ?thesis using Cons[of False]
      by (cases "condense_from False str") auto
  qed
qed

lemma condenseWhitespace_pre:
  "inPre \<noteq> 0 \<Longrightarrow>
   condenseWhitespace opts inPre nodes tag =
     (if (case tag of None \<Rightarrow> False | Some t \<Rightarrow> t \<noteq> [] \<and> isPreTag opts t)
      then (case map pre_node nodes of
              Text content # rest \<Rightarrow> Text (remove_leading_newline content) # rest
            | ns \<Rightarrow> ns)
      else map pre_node nodes)"
proof (cases nodes)
  case Nil
  then show "inPre \<noteq> 0 \<Longrightarrow> ?thesis" by (simp add: condenseWhitespace_def)
next
  case (Cons n rest)
  then show "inPre \<noteq> 0 \<Longrightarrow> ?thesis"
    by (cases n) (simp_all add: condenseWhitespace_def map_filter_Some)
qed

subsection \<open>Claim about the whitespace handling\<close>

text \<open>
  Claim C8, as the code has it. Outside \<open>pre\<close>, on siblings as the parser builds them (no
  two text nodes side by side), \<open>condenseWhitespace\<close> follows the rule \<open>whitespace_rule\<close>:
  a whitespace-only text node is deleted when it is first or last, in either mode; in
  condense mode (every setting but \<open>preserve\<close>) also between two comments, between a comment
  and an element in either order, and between two elements when it contains a newline
  character; if it stays it becomes one space, in either mode. Other text is untouched in
  preserve mode and has each run of whitespace collapsed to one space in condense mode
  (\<open>condense\<close> is \<open>collapse_runs\<close>). Inside \<open>pre\<close>, text only has \<open>\r\n\<close>
  replaced by \<open>\n\<close>, and when the element closed is itself a \<open>pre\<close> tag its first child, if
  text, loses a leading newline. \<open>condense\<close> keeps the characters that are not whitespace,
  in order, writes whitespace as spaces only, and leaves no two whitespace characters side
  by side.
\<close>

theorem condenseWhitespace_amended:
  "(no_adjacent_text nodes \<longrightarrow>
      condenseWhitespace opts 0 nodes tag =
        whitespace_rule (whitespace opts \<noteq> WsPreserve) None nodes) \<and>
   (inPre \<noteq> 0 \<longrightarrow>
      condenseWhitespace opts inPre nodes tag =
        (if (case tag of None \<Rightarrow> False | Some t \<Rightarrow> t \<noteq> [] \<and> isPreTag opts t)
         then (case map pre_node nodes of
                 Text content # rest \<Rightarrow> Text (remove_leading_newline content) # rest
               | ns \<Rightarrow> ns)
         else map pre_node nodes)) \<and>
   condense str = collapse_runs str \<and>
   filter (\<lambda>c. \<not> isWhitespace c) (condense str) = filter (\<lambda>c. \<not> isWhitespace c) str \<and>
   (\<forall>c\<in>set (condense str). isWhitespace c \<longrightarrow> c = Space) \<and>
   no_whitespace_run (condense str)"
proof -
  have "no_adjacent_text nodes \<longrightarrow>
      condenseWhitespace opts 0 nodes tag =
        whitespace_rule (whitespace opts \<noteq> WsPreserve) None nodes"
    using condense_nodes_rule[of nodes None None "whitespace opts \<noteq> WsPreserve"]
    by (simp add: condenseWhitespace_def slot_matches_def)
  then show ?thesis
    using condenseWhitespace_pre[of inPre opts nodes tag] condense_from_keeps[of False str]
      condense_from_space[of _ False str] condense_from_no_run[of False str]
      condense_collapse[of str]
    by (auto simp: condense_def)
qed

text \<open>
  The theorem at whitespace with a newline between two elements, in both modes, at a
  \<open>pre\<close> element's text, and at a text with a run of three whitespace characters and one
  at its end.
\<close>

theorem condenseWhitespace_amended_witness:
  "condenseWhitespace (options_with WsCondense) 0
      [Element ''a'', Text [Space, NewLine], Element ''b''] None = [Element ''a'', Element ''b''] \<and>
   condenseWhitespace (options_with WsPreserve) 0
      [Element ''a'', Text [Space, NewLine], Element ''b''] None =
        [Element ''a'', Text [Space], Element ''b''] \<and>
   condenseWhitespace (options_with WsCondense) 1
      [Text [NewLine, CarriageReturn, NewLine, Space, Space]] (Some ''pre'') =
        [Text [NewLine, Space, Space]] \<and>
   condense [97, Space, Tab, NewLine, 98, FormFeed] = [97, Space, 98, Space] \<and>
   no_whitespace_run (condense [97, Space, Tab, NewLine, 98, FormFeed])"
proof -
  have h: "no_adjacent_text [Element ''a'', Text [Space, NewLine], Element ''b'']" by simp
  have n: "(1::nat) \<noteq> 0" by simp
  have r1: "whitespace_rule (whitespace (options_with WsCondense) \<noteq> WsPreserve) None
      [Element ''a'', Text [Space, NewLine], Element ''b''] = [Element ''a'', Element ''b'']"
    by (simp add: options_with_def whitespace_goes_def isWhitespace_def NewLine_def Space_def)
  have r2: "whitespace_rule (whitespace (options_with WsPreserve) \<noteq> WsPreserve) None
      [Element ''a'', Text [Space, NewLine], Element ''b''] =
        [Element ''a'', Text [Space], Element ''b'']"
    by (simp add: options_with_def whitespace_goes_def isWhitespace_def NewLine_def Space_def)
  have r3: "(if (case Some ''pre'' of None \<Rightarrow> False
                 | Some t \<Rightarrow> t \<noteq> [] \<and> isPreTag (options_with WsCondense) t)
         then (case map pre_node [Text [NewLine, CarriageReturn, NewLine, Space, Space]] of
                 Text content # rest \<Rightarrow> Text (remove_leading_newline content) # rest
               | ns \<Rightarrow> ns)
         else map pre_node [Text [NewLine, CarriageReturn, NewLine, Space, Space]]) =
       [Text [NewLine, Space, Space]]"
    by (simp add: options_with_def is_pre_def NewLine_def CarriageReturn_def Space_def)
  have r4: "collapse_runs [97, Space, Tab, NewLine, 98, FormFeed] = [97, Space, 98, Space]"
    by (simp add: isWhitespace_def Space_def Tab_def NewLine_def FormFeed_def CarriageReturn_def)
  from condenseWhitespace_amended[of "[Element ''a'', Text [Space, NewLine], Element ''b'']"
      "options_with WsCondense" None 1 "[97, Space, Tab, NewLine, 98, FormFeed]"] h
  have A: "condenseWhitespace (options_with WsCondense) 0
      [Element ''a'', Text [Space, NewLine], Element ''b''] None = [Element ''a'', Element ''b'']"
    and D: "no_whitespace_run (condense [97, Space, Tab, NewLine, 98, FormFeed])"
    and E: "condense [97, Space, Tab, NewLine, 98, FormFeed] =
            collapse_runs [97, Space, Tab, NewLine, 98, FormFeed]"
    unfolding r1 by blast+
  from condenseWhitespace_amended[of "[Element ''a'', Text [Space, NewLine], Element ''b'']"
      "options_with WsPreserve" None 1 "[]"] h
  have B: "condenseWhitespace (options_with WsPreserve) 0
      [Element ''a'', Text [Space, NewLine], Element ''b''] None =
        [Element ''a'', Text [Space], Element ''b'']"
    unfolding r2 by blast
  from condenseWhitespace_amended[of "[Text [NewLine, CarriageReturn, NewLine, Space, Space]]"
      "options_with WsCondense" "Some ''pre''" 1 "[]"] n
  have C: "condenseWhitespace (options_with WsCondense) 1
      [Text [NewLine, CarriageReturn, NewLine, Space, Space]] (Some ''pre'') =
        [Text [NewLine, Space, Space]]"
    unfolding r3 by blast
  show ?thesis using A B C D E[unfolded r4] by blast
qed

text \<open>
  Claim C8 as stated fails in three places. In preserve mode a leading whitespace-only text
  node is deleted and one between two elements is rewritten to a single space, so text
  nodes are not left untouched. In condense mode a whitespace-only text node next to a
  comment stays when its other neighbour is an interpolation. Inside a \<open>pre\<close> element the
  leading newline of the first text is dropped, so whitespace is not preserved.
\<close>

theorem condenseWhitespace_counterexample:
  "condenseWhitespace (options_with WsPreserve) 0 [Text [Space, Space], Element ''div''] None =
     [Element ''div''] \<and>
   condenseWhitespace (options_with WsPreserve) 0
     [Element ''a'', Text [Space, NewLine], Element ''b''] None =
     [Element ''a'', Text [Space], Element ''b''] \<and>
   condenseWhitespace (options_with WsCondense) 0
     [Comment [], Text [Space], Interpolation [120]] None =
     [Comment [], Text [Space], Interpolation [120]] \<and>
   condenseWhitespace (options_with WsCondense) 1 [Text [NewLine, Space, 97]] (Some ''pre'') =
     [Text [Space, 97]]"
  by (simp add: condenseWhitespace_def options_with_def is_pre_def isWhitespace_def
      NewLine_def Space_def CarriageReturn_def Tab_def FormFeed_def)

section \<open>The reactivity kernel: triggering\<close>

lemma trigger_effect_frame:
  "k_deps (trigger_effect d lvl e s) = k_deps s \<and>
   targetMap (trigger_effect d lvl e s) = targetMap s \<and>
   queueEffectSchedulers (trigger_effect d lvl e s) = queueEffectSchedulers s \<and>
   pauseScheduleStack (trigger_effect d lvl e s) = pauseScheduleStack s \<and>
   dep_get (trigger_effect d lvl e s) d' e' = dep_get s d' e' \<and>
   dep_keys (trigger_effect d lvl e s) d' = dep_keys s d'"
  by (simp add: trigger_effect_def upd_effect_def Let_def dep_get_def dep_keys_def)

lemma trigger_effect_other:
  "e' \<noteq> e \<Longrightarrow> k_effects (trigger_effect d lvl e s) e' = k_effects s e'"
  by (simp add: trigger_effect_def upd_effect_def Let_def)

lemma trigger_effect_self:
  "k_effects (trigger_effect d lvl e s) e =
     (if armed s d lvl e
      then (k_effects s e)\<lparr>ef_dirtyLevel := lvl,
             ef_shouldSchedule := (ef_shouldSchedule (k_effects s e) \<or> ef_dirtyLevel (k_effects s e) = NotDirty)\<rparr>
      else k_effects s e)"
  by (auto simp: trigger_effect_def upd_effect_def Let_def armed_def)


lemma trigger_effect_not_armed:
  "\<not> armed (trigger_effect d lvl e s) d lvl e"
  by (auto simp: trigger_effect_def upd_effect_def Let_def armed_def dep_get_def)

lemma armed_other:
  "e' \<noteq> e \<Longrightarrow> armed (trigger_effect d lvl e s) d lvl e' = armed s d lvl e'"
  by (simp add: armed_def trigger_effect_other trigger_effect_frame)

text \<open>The first loop: every effect in the list ends as one turn on the start state leaves it.\<close>

lemma fold_trigger_frame:
  "k_deps (fold (trigger_effect d lvl) es s) = k_deps s \<and>
   targetMap (fold (trigger_effect d lvl) es s) = targetMap s \<and>
   queueEffectSchedulers (fold (trigger_effect d lvl) es s) = queueEffectSchedulers s \<and>
   pauseScheduleStack (fold (trigger_effect d lvl) es s) = pauseScheduleStack s \<and>
   dep_get (fold (trigger_effect d lvl) es s) d' e' = dep_get s d' e' \<and>
   dep_keys (fold (trigger_effect d lvl) es s) d' = dep_keys s d'"
  by (induction es arbitrary: s) (simp_all add: trigger_effect_frame)

lemma fold_trigger_effects:
  "k_effects (fold (trigger_effect d lvl) es s) e =
     (if e \<in> set es then k_effects (trigger_effect d lvl e s) e else k_effects s e)"
proof (induction es arbitrary: s)
  case Nil
  then show ?case by simp
next
  case (Cons x es)
  show ?case
  proof (cases "x = e")
    case True
    have idem: "k_effects (trigger_effect d lvl e (trigger_effect d lvl e s)) e =
        k_effects (trigger_effect d lvl e s) e"
      using trigger_effect_not_armed[of d lvl e s] by (simp add: trigger_effect_self)
    show ?thesis using True Cons[of "trigger_effect d lvl e s"] idem by simp
  next
    case False
    have "k_effects (trigger_effect d lvl e (trigger_effect d lvl x s)) e =
        k_effects (trigger_effect d lvl e s) e"
      using False armed_other[of e x d lvl s]
      by (simp add: trigger_effect_self trigger_effect_other)
    then show ?thesis using False Cons[of "trigger_effect d lvl x s"]
      by (simp add: trigger_effect_other)
  qed
qed


lemma schedule_effect_frame:
  "k_deps (schedule_effect d e s) = k_deps s \<and>
   targetMap (schedule_effect d e s) = targetMap s \<and>
   notified (schedule_effect d e s) = notified s \<and>
   pauseScheduleStack (schedule_effect d e s) = pauseScheduleStack s \<and>
   dep_get (schedule_effect d e s) d' e' = dep_get s d' e' \<and>
   dep_keys (schedule_effect d e s) d' = dep_keys s d'"
  by (simp add: schedule_effect_def upd_effect_def Let_def dep_get_def dep_keys_def)

lemma schedule_effect_other:
  "e' \<noteq> e \<Longrightarrow> k_effects (schedule_effect d e s) e' = k_effects s e'"
  by (simp add: schedule_effect_def upd_effect_def Let_def)

lemma schedule_effect_self:
  "k_effects (schedule_effect d e s) e =
     (if schedulable s d e then (k_effects s e)\<lparr>ef_shouldSchedule := False\<rparr> else k_effects s e)"
  by (auto simp: schedule_effect_def upd_effect_def Let_def schedulable_def)


lemma schedule_effect_done: "\<not> schedulable (schedule_effect d e s) d e"
  by (auto simp: schedule_effect_def upd_effect_def Let_def schedulable_def dep_get_def)

lemma schedulable_other:
  "e' \<noteq> e \<Longrightarrow> schedulable (schedule_effect d e s) d e' = schedulable s d e'"
  by (simp add: schedulable_def schedule_effect_other schedule_effect_frame)

lemma fold_schedule_frame:
  "k_deps (fold (schedule_effect d) es s) = k_deps s \<and>
   targetMap (fold (schedule_effect d) es s) = targetMap s \<and>
   notified (fold (schedule_effect d) es s) = notified s \<and>
   pauseScheduleStack (fold (schedule_effect d) es s) = pauseScheduleStack s \<and>
   dep_get (fold (schedule_effect d) es s) d' e' = dep_get s d' e' \<and>
   dep_keys (fold (schedule_effect d) es s) d' = dep_keys s d'"
  by (induction es arbitrary: s) (simp_all add: schedule_effect_frame)

lemma fold_schedule_effects:
  "k_effects (fold (schedule_effect d) es s) e =
     (if e \<in> set es then k_effects (schedule_effect d e s) e else k_effects s e)"
proof (induction es arbitrary: s)
  case Nil
  then show ?case by simp
next
  case (Cons x es)
  show ?case
  proof (cases "x = e")
    case True
    have idem: "k_effects (schedule_effect d e (schedule_effect d e s)) e =
        k_effects (schedule_effect d e s) e"
      using schedule_effect_done[of d e s] by (simp add: schedule_effect_self)
    show ?thesis using True Cons[of "schedule_effect d e s"] idem by simp
  next
    case False
    have "k_effects (schedule_effect d e (schedule_effect d x s)) e =
        k_effects (schedule_effect d e s) e"
      using False schedulable_other[of e x d s]
      by (simp add: schedule_effect_self schedule_effect_other)
    then show ?thesis using False Cons[of "schedule_effect d x s"]
      by (simp add: schedule_effect_other)
  qed
qed


lemma drain_paused:
  "pauseScheduleStack s \<noteq> 0 \<Longrightarrow> drain_schedulers sched fuel s = Some s"
  by (cases fuel) simp_all

lemma drain_empty:
  "queueEffectSchedulers s = [] \<Longrightarrow> drain_schedulers sched fuel s = Some s"
  by (cases fuel) simp_all

text \<open>\<open>mark_and_schedule\<close>, effect by effect.\<close>

lemma mark_and_schedule_frame:
  "k_deps (mark_and_schedule d lvl s) = k_deps s \<and>
   targetMap (mark_and_schedule d lvl s) = targetMap s \<and>
   pauseScheduleStack (mark_and_schedule d lvl s) = pauseScheduleStack s + 1 \<and>
   dep_get (mark_and_schedule d lvl s) d' e' = dep_get s d' e' \<and>
   dep_keys (mark_and_schedule d lvl s) d' = dep_keys s d'"
  by (simp add: mark_and_schedule_def scheduleEffects_def Let_def fold_schedule_frame
      fold_trigger_frame pauseScheduling_def dep_get_def dep_keys_def)

lemma armed_pause: "armed (pauseScheduling s) d lvl e = armed s d lvl e"
  by (simp add: armed_def pauseScheduling_def dep_get_def)




lemmas k_eval = mark_and_schedule_def scheduleEffects_def trigger_effect_def schedule_effect_def
  upd_effect_def dep_keys_def dep_get_def pauseScheduling_def subscribed_def k_init_def
  fresh_effect_def NotDirty_def MaybeDirty_def Dirty_def k_view_def idle_scheduler_def
  triggerEffects_def resetScheduling_def Let_def armed_def gained_def

subsection \<open>Claim about triggerEffects\<close>




subsection \<open>What trigger collects and marks\<close>

lemma map_filter_map_Some: "List.map_filter (\<lambda>d. d) (map (\<lambda>kd. Some (f kd)) xs) = map f xs"
  by (induction xs) simp_all

lemma map_filter_map: "List.map_filter (\<lambda>d. d) (map f xs) = List.map_filter f xs"
  by (induction xs) (auto split: option.splits)

lemma collect_deps_key:
  "type \<noteq> CLEAR \<Longrightarrow> \<not> (tk = ArrayObject \<and> key = KStr ''length'') \<Longrightarrow>
   collect_deps sh tk depsMap type key newLength =
     map (map_of depsMap) ((if key \<noteq> KUndefined then [key] else []) @ also_keys sh tk type key)"
  by (cases type) (auto simp: collect_deps_def also_keys_def)

lemma triggered_deps_clear:
  "triggered_deps sh tk depsMap CLEAR key newLength = map snd depsMap"
  by (simp add: triggered_deps_def collect_deps_def map_filter_map_Some)

lemma triggered_deps_length:
  "type \<noteq> CLEAR \<Longrightarrow>
   triggered_deps sh ArrayObject depsMap type (KStr ''length'') newLength =
     map snd (filter (\<lambda>kd. reached_by_length sh newLength (fst kd)) depsMap)"
  by (simp add: triggered_deps_def collect_deps_def map_filter_map_Some reached_by_length_def)

lemma triggered_deps_key:
  "type \<noteq> CLEAR \<Longrightarrow> \<not> (tk = ArrayObject \<and> key = KStr ''length'') \<Longrightarrow>
   triggered_deps sh tk depsMap type key newLength =
     List.map_filter (map_of depsMap) ((if key \<noteq> KUndefined then [key] else []) @ also_keys sh tk type key)"
  by (simp add: triggered_deps_def collect_deps_key map_filter_map del: map_append)

lemma triggerEffects_paused:
  "pauseScheduleStack s \<noteq> 0 \<Longrightarrow>
   triggerEffects sched fuel d lvl s =
     Some ((mark_and_schedule d lvl s)\<lparr>pauseScheduleStack := pauseScheduleStack s\<rparr>)"
  by (simp add: triggerEffects_def resetScheduling_def drain_paused mark_and_schedule_frame)

lemma trigger_each_paused:
  "pauseScheduleStack s \<noteq> 0 \<Longrightarrow>
   trigger_each sched fuel ds s = Some (mark_all (List.map_filter (\<lambda>d. d) ds) s)"
proof (induction ds arbitrary: s)
  case Nil
  then show ?case by (simp add: mark_all_def)
next
  case (Cons x ds)
  show ?case
  proof (cases x)
    case None
    then show ?thesis using Cons by simp
  next
    case (Some d)
    let ?s1 = "(mark_and_schedule d Dirty s)\<lparr>pauseScheduleStack := pauseScheduleStack s\<rparr>"
    have "pauseScheduleStack ?s1 \<noteq> 0" using Cons.prems by simp
    from Cons.IH[OF this] show ?thesis
      using Some Cons.prems by (simp add: triggerEffects_paused mark_all_def)
  qed
qed

lemma trigger_marks:
  "targetMap s t = Some depsMap \<Longrightarrow> pauseScheduleStack s \<noteq> - 1 \<Longrightarrow>
   trigger sh sched fuel t type key newLength s =
     resetScheduling sched fuel
       (mark_all (triggered_deps sh (kinds s t) depsMap type key newLength) (pauseScheduling s))"
proof -
  assume a: "targetMap s t = Some depsMap" "pauseScheduleStack s \<noteq> - 1"
  have "pauseScheduleStack (pauseScheduling s) \<noteq> 0" using a(2) by (simp add: pauseScheduling_def)
  from trigger_each_paused[OF this] a(1) show ?thesis
    by (simp add: trigger_def triggered_deps_def)
qed

lemma mark_and_schedule_effect:
  "ef_dirtyLevel (k_effects (mark_and_schedule d lvl s) e) =
     (if e \<in> set (dep_keys s d) \<and> armed s d lvl e then lvl else ef_dirtyLevel (k_effects s e)) \<and>
   ef_trackId (k_effects (mark_and_schedule d lvl s) e) = ef_trackId (k_effects s e)"
proof -
  let ?s1 = "pauseScheduling s"
  let ?s2 = "fold (trigger_effect d lvl) (dep_keys ?s1 d) ?s1"
  have k1: "dep_keys ?s1 d = dep_keys s d" by (simp add: pauseScheduling_def dep_keys_def)
  have e1: "k_effects ?s1 = k_effects s" by (simp add: pauseScheduling_def)
  have s3: "ef_dirtyLevel (k_effects (fold (schedule_effect d) (dep_keys ?s2 d) ?s2) e) =
      ef_dirtyLevel (k_effects ?s2 e) \<and>
      ef_trackId (k_effects (fold (schedule_effect d) (dep_keys ?s2 d) ?s2) e) =
      ef_trackId (k_effects ?s2 e)"
    by (simp add: fold_schedule_effects schedule_effect_self)
  have s2: "ef_dirtyLevel (k_effects ?s2 e) =
      (if e \<in> set (dep_keys s d) \<and> armed s d lvl e then lvl else ef_dirtyLevel (k_effects s e)) \<and>
     ef_trackId (k_effects ?s2 e) = ef_trackId (k_effects s e)"
    using armed_pause[of s d lvl e]
    by (simp add: fold_trigger_effects trigger_effect_self k1 e1)
  show ?thesis using s2 s3
    by (simp add: mark_and_schedule_def scheduleEffects_def Let_def)
qed

lemma mark_all_Dirty:
  "d \<in> set ds \<Longrightarrow> e \<in> set (dep_keys s d) \<Longrightarrow>
   dep_get s d e = Some (ef_trackId (k_effects s e)) \<Longrightarrow>
   Dirty \<le> ef_dirtyLevel (k_effects (mark_all ds s) e)"
proof -
  let ?step = "\<lambda>d s'. (mark_and_schedule d Dirty s')\<lparr>pauseScheduleStack := pauseScheduleStack s'\<rparr>"
  have keep: "Dirty \<le> ef_dirtyLevel (k_effects s' e) \<Longrightarrow>
      Dirty \<le> ef_dirtyLevel (k_effects (fold ?step ds s') e)" for ds s'
  proof (induction ds arbitrary: s')
    case Nil
    then show ?case by simp
  next
    case (Cons x ds)
    have "Dirty \<le> ef_dirtyLevel (k_effects (?step x s') e)"
      using Cons.prems by (simp add: mark_and_schedule_effect)
    from Cons.IH[OF this] show ?case by simp
  qed
  show "d \<in> set ds \<Longrightarrow> e \<in> set (dep_keys s d) \<Longrightarrow>
   dep_get s d e = Some (ef_trackId (k_effects s e)) \<Longrightarrow> ?thesis"
  proof (induction ds arbitrary: s)
    case Nil
    then show ?case by simp
  next
    case (Cons x ds)
    let ?s1 = "?step x s"
    have fr: "dep_keys ?s1 d = dep_keys s d" "dep_get ?s1 d e = dep_get s d e"
      "ef_trackId (k_effects ?s1 e) = ef_trackId (k_effects s e)"
      using mark_and_schedule_frame[of x Dirty s d e] mark_and_schedule_effect[of x Dirty s e]
      by (simp_all add: dep_keys_def dep_get_def)
    show ?case
    proof (cases "x = d")
      case True
      have "Dirty \<le> ef_dirtyLevel (k_effects ?s1 e)"
        using True Cons.prems(2,3) by (auto simp: mark_and_schedule_effect armed_def)
      from keep[OF this, of ds] show ?thesis by (simp add: mark_all_def)
    next
      case False
      then have "d \<in> set ds" using Cons.prems(1) by simp
      from Cons.IH[OF this, of ?s1] Cons.prems(2,3) fr show ?thesis
        by (simp add: mark_all_def)
    qed
  qed
qed

subsection \<open>Claim about trigger\<close>

text \<open>
  Claim C1, as the code has it. \<open>trigger\<close> calls \<open>triggerEffects\<close> on these deps, in this
  order. For CLEAR: the deps of all keys of the target. Otherwise, for the key \<open>length\<close> of
  an array: the deps of \<open>length\<close> and of every key that is no symbol and is at least the new
  length. Otherwise: the dep of the key, unless the key is \<open>undefined\<close>, and the deps of
  the keys \<open>also_keys\<close> names (iteration keys on ADD and DELETE for a non-array and on SET
  for a \<open>Map\<close>, \<open>length\<close> on ADD of an integer key to an array), as far as these deps
  exist. A target that was never tracked has no deps, and nothing happens. The calls are made
  under a pause of the scheduler and amount to marking each of the deps at level \<open>Dirty\<close>;
  the pause is unwound at the end. Once the deps are marked, every effect of one of them
  whose recorded track-id is current is at least at level \<open>Dirty\<close>.
\<close>

theorem trigger_amended:
  "triggered_deps sh tk depsMap CLEAR key newLength = map snd depsMap \<and>
   (type \<noteq> CLEAR \<longrightarrow>
      triggered_deps sh ArrayObject depsMap type (KStr ''length'') newLength =
        map snd (filter (\<lambda>kd. reached_by_length sh newLength (fst kd)) depsMap)) \<and>
   (type \<noteq> CLEAR \<and> \<not> (tk = ArrayObject \<and> key = KStr ''length'') \<longrightarrow>
      triggered_deps sh tk depsMap type key newLength =
        List.map_filter (map_of depsMap)
          ((if key \<noteq> KUndefined then [key] else []) @ also_keys sh tk type key)) \<and>
   (targetMap s t = None \<longrightarrow> trigger sh sched fuel t type key newLength s = Some s) \<and>
   (targetMap s t = Some depsMap \<and> pauseScheduleStack s \<noteq> - 1 \<longrightarrow>
      trigger sh sched fuel t type key newLength s =
        resetScheduling sched fuel
          (mark_all (triggered_deps sh (kinds s t) depsMap type key newLength) (pauseScheduling s))) \<and>
   (d \<in> set ds \<and> e \<in> set (dep_keys s d) \<and> dep_get s d e = Some (ef_trackId (k_effects s e)) \<longrightarrow>
      Dirty \<le> ef_dirtyLevel (k_effects (mark_all ds s) e))"
  using triggered_deps_clear[of sh tk depsMap key newLength]
    triggered_deps_length[of type sh depsMap newLength]
    triggered_deps_key[of type tk key sh depsMap newLength]
    trigger_marks[of s t depsMap sh sched fuel type key newLength]
    mark_all_Dirty[of d ds e s]
  by (simp add: trigger_def)

text \<open>
  The theorem at an array whose length is set to 1 and to which index 1 is added, and at an
  object whose property \<open>x\<close>, read by effect 0, is set.
\<close>

theorem trigger_amended_witness:
  "triggered_deps numeral_shared ArrayObject array_depsMap SET (KStr ''length'') (Num 1) = [0, 2] \<and>
   triggered_deps numeral_shared ArrayObject array_depsMap ADD (KStr ''1'') NaN = [2, 0] \<and>
   map_option k_view
     (trigger numeral_shared idle_scheduler 1 0 SET (KStr ''x'') NaN (key_read (KStr ''x'') PlainObject)) =
     Some (Dirty, [0], []) \<and>
   Dirty \<le> ef_dirtyLevel (k_effects (mark_all [0] (key_read (KStr ''x'') PlainObject)) 0)"
proof -
  let ?s = "key_read (KStr ''x'') PlainObject"
  have h1: "SET \<noteq> CLEAR" "ADD \<noteq> CLEAR" by simp_all
  have h2: "ADD \<noteq> CLEAR \<and> \<not> (ArrayObject = ArrayObject \<and> KStr ''1'' = KStr ''length'')" by simp
  have h3: "targetMap ?s 0 = Some [(KStr ''x'', 0)] \<and> pauseScheduleStack ?s \<noteq> - 1"
    by (simp add: key_read_def subscribed_def k_init_def)
  have h4: "(0::nat) \<in> set [0] \<and> 0 \<in> set (dep_keys ?s 0) \<and>
      dep_get ?s 0 0 = Some (ef_trackId (k_effects ?s 0))"
    by (simp add: key_read_def subscribed_def k_init_def dep_keys_def dep_get_def)
  from trigger_amended[of numeral_shared ArrayObject array_depsMap "KStr ''length''" "Num 1" SET] h1
  have A0: "triggered_deps numeral_shared ArrayObject array_depsMap SET (KStr ''length'') (Num 1) =
        map snd (filter (\<lambda>kd. reached_by_length numeral_shared (Num 1) (fst kd)) array_depsMap)"
    by blast
  have A: "triggered_deps numeral_shared ArrayObject array_depsMap SET (KStr ''length'') (Num 1) = [0, 2]"
    unfolding A0
    by (simp add: array_depsMap_def reached_by_length_def isSymbol_def key_number_def
        numeral_shared_def numeral_value_def js_ge_def)
  from trigger_amended[of numeral_shared ArrayObject array_depsMap "KStr ''1''" NaN ADD] h2
  have B0: "triggered_deps numeral_shared ArrayObject array_depsMap ADD (KStr ''1'') NaN =
        List.map_filter (map_of array_depsMap)
          ((if KStr ''1'' \<noteq> KUndefined then [KStr ''1''] else []) @
           also_keys numeral_shared ArrayObject ADD (KStr ''1''))"
    by blast
  have B: "triggered_deps numeral_shared ArrayObject array_depsMap ADD (KStr ''1'') NaN = [2, 0]"
    unfolding B0
    by (simp add: array_depsMap_def also_keys_def numeral_shared_def numeral_value_def)
  from trigger_amended[of numeral_shared PlainObject "[(KStr ''x'', 0)]" "KStr ''x''" NaN SET ?s 0
      idle_scheduler 1 0 "[0]" 0] h3 h4
  have C0: "trigger numeral_shared idle_scheduler 1 0 SET (KStr ''x'') NaN ?s =
        resetScheduling idle_scheduler 1
          (mark_all (triggered_deps numeral_shared (kinds ?s 0) [(KStr ''x'', 0)] SET (KStr ''x'') NaN)
             (pauseScheduling ?s))"
    and D: "Dirty \<le> ef_dirtyLevel (k_effects (mark_all [0] ?s) 0)"
    by blast+
  have C: "map_option k_view (trigger numeral_shared idle_scheduler 1 0 SET (KStr ''x'') NaN ?s) =
     Some (Dirty, [0], [])"
    unfolding C0
    by (simp add: k_eval key_read_def triggered_deps_def collect_deps_def mark_all_def)
  show ?thesis using A B C D by blast
qed

text \<open>
  Claim C1 as stated fails: effect 0 has read the entry of a \<open>Map\<close> under the key
  \<open>undefined\<close>, so the map has a dep for that key; on SET with key \<open>undefined\<close> the guard
  \<open>key !== void 0\<close> keeps the dep of the key out of the collected deps, and the effect
  stays \<open>NotDirty\<close>.
\<close>

theorem trigger_counterexample:
  "map_of [(KUndefined, 0::nat)] KUndefined = Some 0 \<and>
   targetMap (key_read KUndefined MapObject) 0 = Some [(KUndefined, 0)] \<and>
   armed (key_read KUndefined MapObject) 0 Dirty 0 \<and>
   triggered_deps numeral_shared MapObject [(KUndefined, 0)] SET KUndefined NaN = [] \<and>
   map_option k_view
     (trigger numeral_shared idle_scheduler 1 0 SET KUndefined NaN (key_read KUndefined MapObject)) =
     Some (NotDirty, [], [])"
  by (simp add: k_eval key_read_def triggered_deps_def collect_deps_def trigger_def)

section \<open>The reactivity kernel: the subscription graph\<close>

lemma map_of_map_set: "map_of (map_set m k v) k' = (if k' = k then Some v else map_of m k')"
  by (induction m k v rule: map_set.induct) auto

lemma run_dep_cleanup_frame:
  "k_deps (run_dep_cleanup d s) = k_deps s \<and> k_effects (run_dep_cleanup d s) = k_effects s \<and>
   next_dep (run_dep_cleanup d s) = next_dep s \<and>
   dep_get (run_dep_cleanup d s) d' e' = dep_get s d' e'"
  by (simp add: run_dep_cleanup_def dep_get_def split: option.splits)

lemma run_dep_cleanup_targetMap:
  "targetMap (run_dep_cleanup d s) t = Some m' \<Longrightarrow> map_of m' key = Some x \<Longrightarrow>
   \<exists>m. targetMap s t = Some m \<and> map_of m key = Some x"
  by (auto simp: run_dep_cleanup_def map_of_map_delete split: option.splits if_splits)

lemma cleanupDepEffect_frame:
  "k_effects (cleanupDepEffect d e s) = k_effects s \<and>
   next_dep (cleanupDepEffect d e s) = next_dep s"
  by (simp add: cleanupDepEffect_def Let_def run_dep_cleanup_frame split: option.splits)

lemma map_delete_Nil: "map_delete m k = [] \<Longrightarrow> k' \<noteq> k \<Longrightarrow> map_of m k' = None"
  using map_of_map_delete[of m k k'] by simp

lemma cleanupDepEffect_dep_get:
  "dep_get (cleanupDepEffect d e s) d' e' =
     (if d' = d \<and> e' = e \<and> dep_get s d e \<noteq> Some (ef_trackId (k_effects s e)) then None
      else dep_get s d' e')"
  by (auto simp: cleanupDepEffect_def Let_def run_dep_cleanup_frame dep_get_def map_of_map_delete
      map_delete_Nil split: option.splits)

lemma cleanupDepEffect_entries:
  "dep_entries (k_deps s d') = [] \<Longrightarrow> dep_entries (k_deps (cleanupDepEffect d e s) d') = []"
  by (auto simp: cleanupDepEffect_def Let_def run_dep_cleanup_frame dep_get_def map_delete_def
      split: option.splits)

lemma cleanupDepEffect_targetMap:
  "targetMap (cleanupDepEffect d e s) t = Some m' \<Longrightarrow> map_of m' key = Some x \<Longrightarrow>
   \<exists>m. targetMap s t = Some m \<and> map_of m key = Some x"
  by (auto simp: cleanupDepEffect_def Let_def split: option.splits if_splits
      dest: run_dep_cleanup_targetMap)

lemma effect_ok_cleanup: "effect_ok s e' \<Longrightarrow> effect_ok (cleanupDepEffect d e s) e'"
  unfolding effect_ok_def
  by (simp add: cleanupDepEffect_frame cleanupDepEffect_dep_get) metis

lemma graph_okI:
  "(\<And>e. effect_ok s e) \<Longrightarrow> (\<And>d. next_dep s \<le> d \<Longrightarrow> dep_entries (k_deps s d) = []) \<Longrightarrow>
   (\<And>t depsMap key d. targetMap s t = Some depsMap \<Longrightarrow> map_of depsMap key = Some d \<Longrightarrow> d < next_dep s) \<Longrightarrow>
   graph_ok s"
  unfolding graph_ok_def by blast

lemma graph_ok_effect: "graph_ok s \<Longrightarrow> effect_ok s e"
  unfolding graph_ok_def by blast

lemma graph_ok_unmade: "graph_ok s \<Longrightarrow> next_dep s \<le> d \<Longrightarrow> dep_entries (k_deps s d) = []"
  unfolding graph_ok_def by blast

lemma graph_ok_made:
  "graph_ok s \<Longrightarrow> targetMap s t = Some depsMap \<Longrightarrow> map_of depsMap key = Some d \<Longrightarrow> d < next_dep s"
  unfolding graph_ok_def by blast

lemma graph_ok_cleanup: "graph_ok s \<Longrightarrow> graph_ok (cleanupDepEffect d e s)"
proof (rule graph_okI)
  assume ok: "graph_ok s"
  show "effect_ok (cleanupDepEffect d e s) e'" for e'
    using effect_ok_cleanup[OF graph_ok_effect[OF ok]] .
  show "dep_entries (k_deps (cleanupDepEffect d e s) d') = []"
    if "next_dep (cleanupDepEffect d e s) \<le> d'" for d'
    using that graph_ok_unmade[OF ok, of d'] cleanupDepEffect_entries
    by (simp add: cleanupDepEffect_frame)
  show "x < next_dep (cleanupDepEffect d e s)"
    if "targetMap (cleanupDepEffect d e s) t = Some m'" "map_of m' key = Some x" for t m' key x
    using cleanupDepEffect_targetMap[OF that] graph_ok_made[OF ok]
    by (auto simp: cleanupDepEffect_frame)
qed

lemma graph_ok_same: "graph_ok s \<Longrightarrow> same_graph s s' \<Longrightarrow> graph_ok s'"
  unfolding graph_ok_def effect_ok_def same_graph_def dep_get_def by simp

lemma effect_ok_pre: "effect_ok s e' \<Longrightarrow> effect_ok (preCleanupEffect e s) e'"
proof (cases "e' = e")
  case False
  assume "effect_ok s e'"
  then show ?thesis using False
    by (simp add: effect_ok_def preCleanupEffect_def upd_effect_def dep_get_def)
next
  case True
  assume ok: "effect_ok s e'"
  have g: "dep_get (preCleanupEffect e s) d e = dep_get s d e" for d
    by (simp add: preCleanupEffect_def upd_effect_def dep_get_def)
  have le: "dep_get s d e = Some n \<Longrightarrow> n \<le> ef_trackId (k_effects s e)" for d n
    using ok True unfolding effect_ok_def by blast
  have in_deps: "dep_get s d e \<noteq> None \<Longrightarrow> d \<in> set (ef_deps (k_effects s e))" for d
    using ok True unfolding effect_ok_def by blast
  show ?thesis
    unfolding True effect_ok_def g
    using le in_deps
    by (auto simp: preCleanupEffect_def upd_effect_def) fastforce+
qed

lemma graph_ok_pre: "graph_ok s \<Longrightarrow> graph_ok (preCleanupEffect e s)"
proof (rule graph_okI)
  assume ok: "graph_ok s"
  show "effect_ok (preCleanupEffect e s) e'" for e'
    using effect_ok_pre[OF graph_ok_effect[OF ok]] .
  show "dep_entries (k_deps (preCleanupEffect e s) d') = []"
    if "next_dep (preCleanupEffect e s) \<le> d'" for d'
    using that graph_ok_unmade[OF ok, of d'] by (simp add: preCleanupEffect_def upd_effect_def)
  show "x < next_dep (preCleanupEffect e s)"
    if "targetMap (preCleanupEffect e s) t = Some m'" "map_of m' key = Some x" for t m' key x
    using that graph_ok_made[OF ok, of t m' key x] by (simp add: preCleanupEffect_def upd_effect_def)
qed

lemma graph_ok_new_dep: "graph_ok s \<Longrightarrow> graph_ok (new_dep s)"
proof -
  assume ok: "graph_ok s"
  have e: "dep_entries (k_deps s (next_dep s)) = []" using ok unfolding graph_ok_def by simp
  have g: "dep_get (new_dep s) d e = dep_get s d e" for d e
    using e by (simp add: new_dep_def dep_get_def)
  have "effect_ok (new_dep s) e = effect_ok s e" for e
    unfolding effect_ok_def g by (simp add: new_dep_def)
  then show ?thesis using ok unfolding graph_ok_def
    by (auto simp: new_dep_def less_Suc_eq)
qed

lemma graph_ok_init: "graph_ok k_init"
  by (simp add: graph_ok_def effect_ok_def k_init_def fresh_effect_def dep_get_def)

lemma fold_cleanup_frame:
  "k_effects (fold (\<lambda>d. cleanupDepEffect d e) ds s) = k_effects s \<and>
   next_dep (fold (\<lambda>d. cleanupDepEffect d e) ds s) = next_dep s"
  by (induction ds arbitrary: s) (simp_all add: cleanupDepEffect_frame)

lemma fold_cleanup_dep_get:
  "dep_get (fold (\<lambda>d. cleanupDepEffect d e) ds s) d' e' =
     (if e' = e \<and> d' \<in> set ds \<and> dep_get s d' e \<noteq> Some (ef_trackId (k_effects s e)) then None
      else dep_get s d' e')"
proof (induction ds arbitrary: s)
  case Nil
  then show ?case by simp
next
  case (Cons x ds)
  show ?case
    using Cons[of "cleanupDepEffect x e s"]
    by (auto simp: cleanupDepEffect_frame cleanupDepEffect_dep_get)
qed

lemma graph_ok_fold_cleanup: "graph_ok s \<Longrightarrow> graph_ok (fold (\<lambda>d. cleanupDepEffect d e) ds s)"
  by (induction ds arbitrary: s) (simp_all add: graph_ok_cleanup)

lemma effect_ok_post: "effect_ok s e' \<Longrightarrow> effect_ok (postCleanupEffect e s) e'"
proof (cases "length (ef_deps (k_effects s e)) > ef_depsLength (k_effects s e)")
  case False
  assume "effect_ok s e'"
  then show ?thesis using False by (simp add: postCleanupEffect_def Let_def)
next
  case True
  assume ok: "effect_ok s e'"
  define n where "n = ef_depsLength (k_effects s e)"
  define ds where "ds = ef_deps (k_effects s e)"
  define s1 where "s1 = fold (\<lambda>d. cleanupDepEffect d e) (drop n ds) s"
  have res: "postCleanupEffect e s = upd_effect e (\<lambda>ef'. ef'\<lparr>ef_deps := take n (ef_deps ef')\<rparr>) s1"
    using True by (simp add: postCleanupEffect_def Let_def n_def ds_def s1_def)
  have eff: "k_effects s1 = k_effects s" by (simp add: s1_def fold_cleanup_frame)
  have g: "dep_get (postCleanupEffect e s) d' x = dep_get s1 d' x" for d' x
    by (simp add: res upd_effect_def dep_get_def)
  have g1: "dep_get s1 d' x =
     (if x = e \<and> d' \<in> set (drop n ds) \<and> dep_get s d' e \<noteq> Some (ef_trackId (k_effects s e)) then None
      else dep_get s d' x)" for d' x
    by (simp add: s1_def fold_cleanup_dep_get)
  show ?thesis
  proof (cases "e' = e")
    case False
    then show ?thesis using ok
      by (simp add: effect_ok_def g g1) (simp add: res upd_effect_def eff)
  next
    case e: True
    have i1: "n \<le> length ds" using True by (simp add: n_def ds_def)
    have i2: "dep_get s d e \<noteq> None \<Longrightarrow> d \<in> set ds" for d
      using ok unfolding effect_ok_def e ds_def by blast
    have i3: "i < n \<Longrightarrow> dep_get s (ds ! i) e = Some (ef_trackId (k_effects s e))" for i
      using ok unfolding effect_ok_def e ds_def n_def by blast
    have i4: "dep_get s d e = Some (ef_trackId (k_effects s e)) \<Longrightarrow> d \<in> set (take n ds)" for d
      using ok unfolding effect_ok_def e ds_def n_def by blast
    have i5: "dep_get s d e = Some m \<Longrightarrow> m \<le> ef_trackId (k_effects s e)" for d m
      using ok unfolding effect_ok_def e by blast
    have split: "set ds = set (take n ds) \<union> set (drop n ds)"
      by (metis append_take_drop_id set_append)
    have f: "ef_deps (k_effects (postCleanupEffect e s) e) = take n ds"
      "ef_depsLength (k_effects (postCleanupEffect e s) e) = n"
      "ef_trackId (k_effects (postCleanupEffect e s) e) = ef_trackId (k_effects s e)"
      by (simp_all add: res upd_effect_def eff ds_def n_def)
    have c1: "n \<le> length (take n ds)" using i1 by simp
    have c2: "dep_get s1 d e \<noteq> None \<Longrightarrow> d \<in> set (take n ds)" for d
      using i2[of d] i4[of d] split by (auto simp: g1 split: if_splits)
    have c3: "i < n \<Longrightarrow> dep_get s1 (take n ds ! i) e = Some (ef_trackId (k_effects s e))" for i
      using i3[of i] by (simp add: g1)
    have c4: "dep_get s1 d e = Some (ef_trackId (k_effects s e)) \<Longrightarrow> d \<in> set (take n (take n ds))" for d
      using i4[of d] by (simp add: g1 split: if_splits)
    have c5: "dep_get s1 d e = Some m \<Longrightarrow> m \<le> ef_trackId (k_effects s e)" for d m
      using i5[of d m] by (simp add: g1 split: if_splits)
    show ?thesis
      unfolding e effect_ok_def g f using c1 c2 c3 c4 c5 by blast
  qed
qed

lemma settled_post: "effect_ok s e \<Longrightarrow> settled (postCleanupEffect e s) e"
  by (auto simp: effect_ok_def settled_def postCleanupEffect_def Let_def upd_effect_def fold_cleanup_frame)


lemma graph_ok_post: "graph_ok s \<Longrightarrow> graph_ok (postCleanupEffect e s)"
proof (rule graph_okI)
  assume ok: "graph_ok s"
  define s1 where "s1 = fold (\<lambda>d. cleanupDepEffect d e)
    (drop (ef_depsLength (k_effects s e)) (ef_deps (k_effects s e))) s"
  have ok1: "graph_ok s1" unfolding s1_def by (rule graph_ok_fold_cleanup[OF ok])
  have fr: "(k_deps (postCleanupEffect e s) = k_deps s \<and> targetMap (postCleanupEffect e s) = targetMap s \<and>
             next_dep (postCleanupEffect e s) = next_dep s) \<or>
            (k_deps (postCleanupEffect e s) = k_deps s1 \<and> targetMap (postCleanupEffect e s) = targetMap s1 \<and>
             next_dep (postCleanupEffect e s) = next_dep s1)"
    by (simp add: postCleanupEffect_def Let_def upd_effect_def s1_def)
  show "effect_ok (postCleanupEffect e s) e'" for e'
    using effect_ok_post[OF graph_ok_effect[OF ok]] .
  show "dep_entries (k_deps (postCleanupEffect e s) d') = []"
    if "next_dep (postCleanupEffect e s) \<le> d'" for d'
    using that fr graph_ok_unmade[OF ok, of d'] graph_ok_unmade[OF ok1, of d'] by auto
  show "x < next_dep (postCleanupEffect e s)"
    if "targetMap (postCleanupEffect e s) t = Some m'" "map_of m' key = Some x" for t m' key x
    using that fr graph_ok_made[OF ok, of t m' key x] graph_ok_made[OF ok1, of t m' key x] by auto
qed

lemma nth_in_take_Suc: "n < length xs \<Longrightarrow> xs ! n \<in> set (take (Suc n) xs)"
  by (simp add: take_Suc_conv_app_nth)

lemma in_take_Suc: "x \<in> set (take n xs) \<Longrightarrow> x \<in> set (take (Suc n) xs)"
  by (metis le_add2 plus_1_eq_Suc set_take_subset_set_take subsetD)

lemma in_take_update: "x \<in> set (take n xs) \<Longrightarrow> x \<in> set (take (Suc n) (xs[n := y]))"
  by (metis in_take_Suc take_update_cancel order_refl take_update_swap)


lemma effect_ok_trackEffect: "effect_ok s e' \<Longrightarrow> effect_ok s e \<Longrightarrow> effect_ok (trackEffect e d s) e'"
proof (cases "dep_get s d e = Some (ef_trackId (k_effects s e))")
  case True
  assume "effect_ok s e'"
  then show ?thesis using True by (simp add: trackEffect_def)
next
  case False
  assume ok': "effect_ok s e'" and ok: "effect_ok s e"
  define tid where "tid = ef_trackId (k_effects s e)"
  define n where "n = ef_depsLength (k_effects s e)"
  define ds where "ds = ef_deps (k_effects s e)"
  define s1 where "s1 = s\<lparr>k_deps := (k_deps s)
                    (d := (k_deps s d)\<lparr>dep_entries := map_set (dep_entries (k_deps s d)) e tid\<rparr>)\<rparr>"
  have eff1: "k_effects s1 = k_effects s" by (simp add: s1_def)
  have g1: "dep_get s1 d' x = (if d' = d \<and> x = e then Some tid else dep_get s d' x)" for d' x
    by (simp add: s1_def dep_get_def map_of_map_set)
  have i1: "n \<le> length ds" using ok unfolding effect_ok_def ds_def n_def by blast
  have i2: "dep_get s x e \<noteq> None \<Longrightarrow> x \<in> set ds" for x
    using ok unfolding effect_ok_def ds_def by blast
  have i3: "i < n \<Longrightarrow> dep_get s (ds ! i) e = Some tid" for i
    using ok unfolding effect_ok_def ds_def n_def tid_def by blast
  have i4: "dep_get s x e = Some tid \<Longrightarrow> x \<in> set (take n ds)" for x
    using ok unfolding effect_ok_def ds_def n_def tid_def by blast
  have i5: "dep_get s x e = Some m \<Longrightarrow> m \<le> tid" for x m
    using ok unfolding effect_ok_def tid_def by blast
  have dsid: "k_effects s e\<lparr>ef_deps := ds, ef_depsLength := Suc n\<rparr> = k_effects s e\<lparr>ef_depsLength := Suc n\<rparr>"
    by (simp add: ds_def)
  consider (same) "n < length ds" "ds ! n = d"
    | (other) "n < length ds" "ds ! n \<noteq> d"
    | (append) "n = length ds" using i1 by linarith
  then obtain s2 ds' where
    res: "trackEffect e d s = upd_effect e (\<lambda>ef. ef\<lparr>ef_deps := ds', ef_depsLength := n + 1\<rparr>) s2"
    and eff2: "k_effects s2 = k_effects s"
    and len: "n < length ds'"
    and here: "ds' ! n = d"
    and before: "\<And>i. i < n \<Longrightarrow> ds' ! i = ds ! i"
    and g2: "\<And>d' x. dep_get s2 d' x =
       (if x = e \<and> d' \<noteq> d \<and> n < length ds \<and> d' = ds ! n \<and> dep_get s d' e \<noteq> Some tid then None
        else dep_get s1 d' x)"
    and keep: "\<And>x. x \<in> set ds \<Longrightarrow> x \<in> set ds' \<or> (n < length ds \<and> x = ds ! n \<and> x \<noteq> d)"
  proof cases
    case same
    show ?thesis
    proof (rule that[of ds s1])
      show "trackEffect e d s = upd_effect e (\<lambda>ef. ef\<lparr>ef_deps := ds, ef_depsLength := n + 1\<rparr>) s1"
        using False same
        by (simp add: trackEffect_def Let_def s1_def[symmetric] tid_def[symmetric] eff1
            n_def[symmetric] ds_def[symmetric] upd_effect_def dsid)
    qed (use same in \<open>simp_all add: eff1 g1\<close>)
  next
    case other
    show ?thesis
    proof (rule that[of "ds[n := d]" "cleanupDepEffect (ds ! n) e s1"])
      show "trackEffect e d s = upd_effect e (\<lambda>ef. ef\<lparr>ef_deps := ds[n := d], ef_depsLength := n + 1\<rparr>)
              (cleanupDepEffect (ds ! n) e s1)"
        using False other
        by (simp add: trackEffect_def Let_def s1_def[symmetric] tid_def[symmetric] eff1
            n_def[symmetric] ds_def[symmetric] upd_effect_def cleanupDepEffect_frame)
      show "x \<in> set ds \<Longrightarrow> x \<in> set (ds[n := d]) \<or> (n < length ds \<and> x = ds ! n \<and> x \<noteq> d)" for x
        using other by (auto simp: in_set_conv_nth nth_list_update)
    qed (use other in \<open>auto simp: eff1 g1 cleanupDepEffect_frame cleanupDepEffect_dep_get tid_def\<close>)
  next
    case append
    show ?thesis
    proof (rule that[of "ds @ [d]" s1])
      show "trackEffect e d s = upd_effect e (\<lambda>ef. ef\<lparr>ef_deps := ds @ [d], ef_depsLength := n + 1\<rparr>) s1"
        using False append
        by (simp add: trackEffect_def Let_def s1_def[symmetric] tid_def[symmetric] eff1
            n_def[symmetric] ds_def[symmetric] upd_effect_def)
    qed (use append in \<open>simp_all add: eff1 g1 nth_append\<close>)
  qed
  have g: "dep_get (trackEffect e d s) d' x = dep_get s2 d' x" for d' x
    by (simp add: res upd_effect_def dep_get_def)
  show ?thesis
  proof (cases "e' = e")
    case ne: False
    have "k_effects (trackEffect e d s) e' = k_effects s e'"
      using ne by (simp add: res upd_effect_def eff2)
    moreover have "dep_get (trackEffect e d s) d' e' = dep_get s d' e'" for d'
      using ne by (simp add: g g2 g1)
    ultimately show ?thesis using ok' by (simp add: effect_ok_def)
  next
    case e: True
    have f: "ef_deps (k_effects (trackEffect e d s) e) = ds'"
      "ef_depsLength (k_effects (trackEffect e d s) e) = Suc n"
      "ef_trackId (k_effects (trackEffect e d s) e) = tid"
      by (simp_all add: res upd_effect_def eff2 tid_def)
    have din: "d \<in> set (take (Suc n) ds')"
      using nth_in_take_Suc[OF len] here by simp
    have tk: "x \<in> set (take n ds) \<Longrightarrow> x \<in> set (take (Suc n) ds')" for x
    proof -
      assume "x \<in> set (take n ds)"
      then obtain i where "i < n" "i < length ds" "x = ds ! i"
        by (auto simp: in_set_conv_nth)
      then have "i < length (take (Suc n) ds')" "take (Suc n) ds' ! i = x"
        using len before[of i] by simp_all
      then show ?thesis by (metis nth_mem)
    qed
    have c1: "Suc n \<le> length ds'" using len by simp
    have c2: "dep_get s2 x e \<noteq> None \<Longrightarrow> x \<in> set ds'" for x
    proof (cases "x = d")
      case True
      then show ?thesis using din by (meson in_set_takeD)
    next
      case xd: False
      assume a: "dep_get s2 x e \<noteq> None"
      then have b: "dep_get s x e \<noteq> None" using xd by (simp add: g2 g1 split: if_splits)
      then have "x \<in> set ds" by (rule i2)
      then consider "x \<in> set ds'" | "n < length ds" "x = ds ! n" using keep by blast
      then show ?thesis
      proof cases
        case 2
        then have "dep_get s x e = Some tid" using a xd by (simp add: g2 g1 split: if_splits)
        then show ?thesis using tk[OF i4] by (meson in_set_takeD)
      qed
    qed
    have c3: "i < Suc n \<Longrightarrow> dep_get s2 (ds' ! i) e = Some tid" for i
    proof (cases "i = n")
      case True
      then show ?thesis by (simp add: here g2 g1)
    next
      case False
      assume "i < Suc n"
      then have "i < n" using False by simp
      then show ?thesis using before[of i] i3[of i] by (simp add: g2 g1)
    qed
    have c4: "dep_get s2 x e = Some tid \<Longrightarrow> x \<in> set (take (Suc n) ds')" for x
      using din tk[OF i4, of x] by (cases "x = d") (simp_all add: g2 g1 split: if_splits)
    have c5: "dep_get s2 x e = Some m \<Longrightarrow> m \<le> tid" for x m
      using i5[of x m] by (auto simp: g2 g1 split: if_splits)
    show ?thesis
      unfolding e effect_ok_def g f using c1 c2 c3 c4 c5 by blast
  qed
qed


lemma trackEffect_next_dep: "next_dep (trackEffect e d s) = next_dep s"
  by (simp add: trackEffect_def Let_def upd_effect_def cleanupDepEffect_frame split: option.splits)

lemma trackEffect_entries:
  "d' \<noteq> d \<Longrightarrow> dep_entries (k_deps s d') = [] \<Longrightarrow> dep_entries (k_deps (trackEffect e d s) d') = []"
  by (simp add: trackEffect_def Let_def upd_effect_def cleanupDepEffect_entries split: option.splits)

lemma trackEffect_targetMap:
  "targetMap (trackEffect e d s) t = Some m' \<Longrightarrow> map_of m' key = Some x \<Longrightarrow>
   \<exists>m. targetMap s t = Some m \<and> map_of m key = Some x"
  by (auto simp: trackEffect_def Let_def upd_effect_def split: option.splits if_splits
      dest: cleanupDepEffect_targetMap)

lemma graph_ok_trackEffect: "graph_ok s \<Longrightarrow> d < next_dep s \<Longrightarrow> graph_ok (trackEffect e d s)"
proof (rule graph_okI)
  assume ok: "graph_ok s" and d: "d < next_dep s"
  show "effect_ok (trackEffect e d s) e'" for e'
    using effect_ok_trackEffect[OF graph_ok_effect[OF ok] graph_ok_effect[OF ok]] .
  show "dep_entries (k_deps (trackEffect e d s) d') = []"
    if "next_dep (trackEffect e d s) \<le> d'" for d'
    using that d graph_ok_unmade[OF ok, of d'] trackEffect_entries[of d' d s e]
    by (simp add: trackEffect_next_dep)
  show "x < next_dep (trackEffect e d s)"
    if "targetMap (trackEffect e d s) t = Some m'" "map_of m' key = Some x" for t m' key x
    using trackEffect_targetMap[OF that] graph_ok_made[OF ok]
    by (auto simp: trackEffect_next_dep)
qed

lemma graph_ok_depsMap: "graph_ok s \<Longrightarrow> targetMap s t = None \<Longrightarrow> graph_ok (s\<lparr>targetMap := (targetMap s)(t \<mapsto> [])\<rparr>)"
  unfolding graph_ok_def effect_ok_def dep_get_def by (auto split: if_splits)

lemma graph_ok_make_dep:
  assumes ok: "graph_ok s" and m: "targetMap s t = Some depsMap"
  shows "graph_ok (s\<lparr>k_deps := (k_deps s)(next_dep s := \<lparr>dep_entries = [], dep_cleanup = Some (t, key)\<rparr>),
                     targetMap := (targetMap s)(t \<mapsto> map_set depsMap key (next_dep s)),
                     next_dep := Suc (next_dep s)\<rparr>)" (is "graph_ok ?s'")
proof (rule graph_okI)
  have e: "dep_entries (k_deps s (next_dep s)) = []" using graph_ok_unmade[OF ok] by simp
  have g: "dep_get ?s' d x = dep_get s d x" for d x
    using e by (simp add: dep_get_def)
  have "effect_ok ?s' x = effect_ok s x" for x
    unfolding effect_ok_def g by simp
  then show "effect_ok ?s' x" for x using graph_ok_effect[OF ok] by simp
  show "dep_entries (k_deps ?s' d') = []" if "next_dep ?s' \<le> d'" for d'
    using that graph_ok_unmade[OF ok, of d'] by simp
  show "x < next_dep ?s'" if "targetMap ?s' t' = Some m'" "map_of m' key' = Some x" for t' m' key' x
    using that graph_ok_made[OF ok, of t' m' key' x] graph_ok_made[OF ok m, of key' x]
    by (auto simp: map_of_map_set less_Suc_eq split: if_splits)
qed

lemma graph_ok_track: "graph_ok s \<Longrightarrow> graph_ok (track t key s)"
proof -
  assume ok: "graph_ok s"
  show ?thesis
  proof (cases "activeEffect s")
    case None
    then show ?thesis using ok by (simp add: track_def)
  next
    case (Some e)
    show ?thesis
    proof (cases "shouldTrack s")
      case False
      then show ?thesis using ok Some by (simp add: track_def)
    next
      case True
      define s1 where "s1 = (case targetMap s t of
                         None \<Rightarrow> s\<lparr>targetMap := (targetMap s)(t \<mapsto> [])\<rparr>
                       | Some depsMap \<Rightarrow> s)"
      have ok1: "graph_ok s1"
        using ok graph_ok_depsMap[OF ok, of t] by (simp add: s1_def split: option.splits)
      have "targetMap s1 t \<noteq> None"
        by (cases "targetMap s t") (simp_all add: s1_def)
      then obtain depsMap where m: "targetMap s1 t = Some depsMap" by blast
      show ?thesis
      proof (cases "map_of depsMap key")
        case (Some d)
        have "track t key s = trackEffect e d s1"
          using \<open>activeEffect s = Some e\<close> True Some m
          by (simp add: track_def Let_def s1_def[symmetric])
        then show ?thesis
          using graph_ok_trackEffect[OF ok1 graph_ok_made[OF ok1 m Some]] by simp
      next
        case None
        have "track t key s = trackEffect e (next_dep s1)
               (s1\<lparr>k_deps := (k_deps s1)(next_dep s1 := \<lparr>dep_entries = [], dep_cleanup = Some (t, key)\<rparr>),
                   targetMap := (targetMap s1)(t \<mapsto> map_set depsMap key (next_dep s1)),
                   next_dep := Suc (next_dep s1)\<rparr>)"
          using \<open>activeEffect s = Some e\<close> True None m
          by (simp add: track_def Let_def s1_def[symmetric])
        then show ?thesis
          using graph_ok_trackEffect[OF graph_ok_make_dep[OF ok1 m, of key], of "next_dep s1" e]
          by simp
      qed
    qed
  qed
qed

lemma reachable_graph_ok: "reachable s \<Longrightarrow> graph_ok s"
proof (induction rule: reachable.induct)
  case reach_init
  show ?case by (rule graph_ok_init)
next
  case (reach_track s t key)
  then show ?case by (simp add: graph_ok_track)
next
  case (reach_trackEffect s d e)
  then show ?case by (simp add: graph_ok_trackEffect)
next
  case (reach_pre s e)
  then show ?case by (simp add: graph_ok_pre)
next
  case (reach_post s e)
  then show ?case by (simp add: graph_ok_post)
next
  case (reach_new_dep s)
  then show ?case by (simp add: graph_ok_new_dep)
next
  case (reach_other s s')
  then show ?case using graph_ok_same by blast
qed

lemma settled_subscribers:
  "effect_ok s e \<Longrightarrow> settled s e \<Longrightarrow>
   (dep_get s d e \<noteq> None) = (dep_get s d e = Some (ef_trackId (k_effects s e)))"
  unfolding effect_ok_def settled_def
  by (metis in_set_conv_nth option.distinct(1))

lemma reachable_activeEffect: "reachable s \<Longrightarrow> reachable (s\<lparr>activeEffect := a\<rparr>)"
  by (erule reach_other) (simp add: same_graph_def)

lemma reachable_run_until: "reachable s \<Longrightarrow> reachable (run_until e ks s)"
proof -
  have "reachable s' \<Longrightarrow> reachable (fold (track 0) ks s')" for s'
    by (induction ks arbitrary: s') (simp_all add: reach_track)
  moreover assume "reachable s"
  ultimately show "reachable (run_until e ks s)"
    unfolding run_until_def by (simp add: reach_pre reachable_activeEffect)
qed

lemma reachable_run_through: "reachable s \<Longrightarrow> reachable (run_through e ks s)"
  unfolding run_through_def by (intro reachable_activeEffect reach_post reachable_run_until)

lemma reachable_mid_run: "reachable mid_run"
  unfolding mid_run_def two_reads_def by (intro reachable_run_through reachable_run_until reach_init)

lemmas graph_eval = run_until_def run_through_def two_reads_def mid_run_def track_def trackEffect_def
  preCleanupEffect_def postCleanupEffect_def cleanupDepEffect_def run_dep_cleanup_def
  upd_effect_def dep_get_def k_init_def fresh_effect_def Let_def settled_def

subsection \<open>Claim about subscribers and track-ids\<close>

text \<open>
  Claim C4, as the code has it. In every state the kernel can reach, an effect \<open>e\<close> whose
  dep list ends at its cursor \<open>_depsLength\<close> is in the map of a dep \<open>d\<close> if and only if
  \<open>d.get(e)\<close> is the effect's current track-id; and \<open>postCleanupEffect(e)\<close>, the last step
  of every run and of \<open>stop\<close>, leaves the dep list of \<open>e\<close> ending at its cursor.
\<close>

theorem subscribers_amended:
  "reachable s \<Longrightarrow>
   settled (postCleanupEffect e s) e \<and>
   (settled s e \<longrightarrow>
      (dep_get s d e \<noteq> None) = (dep_get s d e = Some (ef_trackId (k_effects s e))))"
  using settled_post[OF graph_ok_effect[OF reachable_graph_ok]]
    settled_subscribers[OF graph_ok_effect[OF reachable_graph_ok]]
  by blast

text \<open>
  Claim C4 as the specification words it fails while a run of the effect is under way. Effect
  0 has read \<open>a\<close> and \<open>b\<close> in its first run; in its second run it has read \<open>a\<close> again, and
  effect 1 has meanwhile run from start to end. Effect 0 is still in the map of the dep of
  \<open>b\<close> (dep 1), under track-id 1, and its current track-id is 2. The state is one the kernel
  reaches (\<open>reachable_mid_run\<close>).
\<close>

theorem subscribers_counterexample:
  "dep_get mid_run 1 0 = Some 1 \<and> ef_trackId (k_effects mid_run 0) = 2 \<and>
   ef_depsLength (k_effects mid_run 0) = 1 \<and> ef_deps (k_effects mid_run 0) = [0, 1]"
  by (simp add: graph_eval)

text \<open>The theorem at effect 0 after its first run, and the dep of \<open>b\<close>.\<close>

theorem subscribers_amended_witness:
  "reachable two_reads \<and> settled two_reads 0 \<and> settled (postCleanupEffect 0 two_reads) 0 \<and>
   dep_get two_reads 1 0 = Some 1 \<and> ef_trackId (k_effects two_reads 0) = 1"
proof -
  have r: "reachable two_reads"
    unfolding two_reads_def by (intro reachable_run_through reach_init)
  have st: "settled two_reads 0" by (simp add: graph_eval)
  have v: "dep_get two_reads 1 0 = Some 1" by (simp add: graph_eval)
  from subscribers_amended[OF r, of 0 1] st v
  have "settled (postCleanupEffect 0 two_reads) 0 \<and>
        Some 1 = Some (ef_trackId (k_effects two_reads 0))" by simp
  then show ?thesis using r st v by simp
qed

section \<open>Reactive arrays and effects that run: theorems\<close>

subsection \<open>Under suspension\<close>

lemma quiet_refl: "quiet s s"
  by (simp add: quiet_def same_graph_def)

lemma quiet_trans: "quiet s s1 \<Longrightarrow> quiet s1 s2 \<Longrightarrow> quiet s s2"
  by (simp add: quiet_def same_graph_def)

lemma quiet_trigger_effect: "quiet s (trigger_effect d lvl e s)"
  by (simp add: quiet_def same_graph_def pause_state_def trigger_effect_def upd_effect_def Let_def)

lemma quiet_schedule_effect: "quiet s (schedule_effect d e s)"
  by (simp add: quiet_def same_graph_def pause_state_def schedule_effect_def upd_effect_def Let_def)

lemma quiet_fold:
  "(\<And>x s. quiet s (f x s)) \<Longrightarrow> quiet s (fold f xs s)"
proof (induction xs arbitrary: s)
  case Nil
  show ?case by (simp add: quiet_refl)
next
  case (Cons x xs)
  show ?case using quiet_trans[OF Cons.prems[of s x] Cons.IH[OF Cons.prems, of "f x s"]] by simp
qed

lemma quiet_mark_and_schedule:
  "quiet s ((mark_and_schedule d lvl s)\<lparr>pauseScheduleStack := pauseScheduleStack s\<rparr>)"
proof -
  let ?s1 = "pauseScheduling s"
  let ?s2 = "fold (trigger_effect d lvl) (dep_keys ?s1 d) ?s1"
  let ?s3 = "fold (schedule_effect d) (dep_keys ?s2 d) ?s2"
  have "quiet ?s1 ?s2" by (rule quiet_fold) (rule quiet_trigger_effect)
  moreover have "quiet ?s2 ?s3" by (rule quiet_fold) (rule quiet_schedule_effect)
  ultimately have "quiet ?s1 ?s3" by (rule quiet_trans)
  then show ?thesis
    by (simp add: mark_and_schedule_def scheduleEffects_def Let_def quiet_def same_graph_def
        pause_state_def pauseScheduling_def)
qed

lemma quiet_mark_all: "quiet s (mark_all ds s)"
  unfolding mark_all_def by (rule quiet_fold) (rule quiet_mark_and_schedule)

lemma trigger_paused:
  assumes "0 < pauseScheduleStack s"
  shows "\<exists>s'. trigger sh sched fuel t type key newLength s = Some s' \<and> quiet s s'"
proof (cases "targetMap s t")
  case None
  then show ?thesis by (simp add: trigger_def quiet_refl)
next
  case (Some depsMap)
  let ?s1 = "pauseScheduling s"
  let ?ds = "List.map_filter (\<lambda>d. d) (collect_deps sh (kinds s t) depsMap type key newLength)"
  have p1: "pauseScheduleStack ?s1 \<noteq> 0" using assms by (simp add: pauseScheduling_def)
  have q: "quiet ?s1 (mark_all ?ds ?s1)" by (rule quiet_mark_all)
  then have p2: "pauseScheduleStack (mark_all ?ds ?s1) = pauseScheduleStack s + 1"
    by (simp add: quiet_def pause_state_def pauseScheduling_def)
  have k: "kinds ?s1 t = kinds s t" by (simp add: pauseScheduling_def)
  have "trigger sh sched fuel t type key newLength s =
        Some ((mark_all ?ds ?s1)\<lparr>pauseScheduleStack := pauseScheduleStack s\<rparr>)"
    using Some assms p2
    by (simp add: trigger_def trigger_each_paused[OF p1] resetScheduling_def drain_paused)
  moreover have "quiet s ((mark_all ?ds ?s1)\<lparr>pauseScheduleStack := pauseScheduleStack s\<rparr>)"
    using q by (simp add: quiet_def same_graph_def pause_state_def pauseScheduling_def)
  ultimately show ?thesis by simp
qed

lemma track_paused: "\<not> shouldTrack s \<Longrightarrow> track t key s = s"
  by (simp add: track_def split: option.splits)

lemma trigger_paused_after:
  assumes "quiet s s1" "0 < pauseScheduleStack s"
  shows "\<exists>s'. trigger sh sched fuel t type key newLength s1 = Some s' \<and> quiet s s'"
proof -
  have "0 < pauseScheduleStack s1" using assms by (simp add: quiet_def pause_state_def)
  from trigger_paused[OF this, of sh sched fuel t type key newLength]
  obtain s' where "trigger sh sched fuel t type key newLength s1 = Some s'" "quiet s1 s'" by blast
  then show ?thesis using quiet_trans[OF assms(1)] by blast
qed

lemma set_trap_paused:
  assumes "0 < pauseScheduleStack s"
  shows "\<exists>s'. set_trap sh sched fuel t w s = Some s' \<and> quiet s s'"
proof -
  define s1 where "s1 = s\<lparr>arrays := (arrays s)(t := array_set (arrays s t) w)\<rparr>"
  have q1: "quiet s s1" by (simp add: s1_def quiet_def same_graph_def pause_state_def)
  have "set_trap sh sched fuel t w s = trigger sh sched fuel t ADD (key_of (w_key w)) (Num (w_value w)) s1 \<or>
        set_trap sh sched fuel t w s = trigger sh sched fuel t SET (key_of (w_key w)) (Num (w_value w)) s1 \<or>
        set_trap sh sched fuel t w s = Some s1"
    by (simp add: set_trap_def Let_def s1_def)
  then show ?thesis
    using trigger_paused_after[OF q1 assms, of sh sched fuel t ADD "key_of (w_key w)" "Num (w_value w)"]
      trigger_paused_after[OF q1 assms, of sh sched fuel t SET "key_of (w_key w)" "Num (w_value w)"]
      q1
    by (elim disjE) simp_all
qed

lemma delete_trap_paused:
  assumes "0 < pauseScheduleStack s"
  shows "\<exists>s'. delete_trap sh sched fuel t i s = Some s' \<and> quiet s s'"
proof -
  define s1 where "s1 = s\<lparr>arrays := (arrays s)(t := array_delete (arrays s t) i)\<rparr>"
  have q1: "quiet s s1" by (simp add: s1_def quiet_def same_graph_def pause_state_def)
  have "delete_trap sh sched fuel t i s = trigger sh sched fuel t DELETE (key_of (Index i)) NaN s1 \<or>
        delete_trap sh sched fuel t i s = Some s1"
    by (simp add: delete_trap_def Let_def s1_def)
  then show ?thesis
    using trigger_paused_after[OF q1 assms, of sh sched fuel t DELETE "key_of (Index i)" NaN] q1
    by (elim disjE) simp_all
qed

lemma run_script_paused:
  "\<not> shouldTrack s \<Longrightarrow> 0 < pauseScheduleStack s \<Longrightarrow>
   \<exists>res s'. run_script sh sched fuel t p s = Some (res, s') \<and> quiet s s'"
proof (induction p arbitrary: s)
  case (Done r)
  show ?case by (simp add: quiet_refl)
next
  case (GetLength f)
  show ?case
    using GetLength.IH[OF rangeI GetLength.prems] GetLength.prems
    by (simp add: get_trap_def track_paused)
next
  case (GetIndex i f)
  show ?case
    using GetIndex.IH[OF rangeI GetIndex.prems] GetIndex.prems
    by (simp add: get_trap_def track_paused)
next
  case (HasIndex i f)
  show ?case
    using HasIndex.IH[OF rangeI HasIndex.prems] HasIndex.prems
    by (simp add: has_trap_def track_paused)
next
  case (SetIndex i v p)
  obtain s1 where s1: "set_trap sh sched fuel t (ToIndex i v) s = Some s1" "quiet s s1"
    using set_trap_paused[OF SetIndex.prems(2)] by blast
  have "\<not> shouldTrack s1" "0 < pauseScheduleStack s1"
    using s1(2) SetIndex.prems by (simp_all add: quiet_def pause_state_def)
  from SetIndex.IH[OF this] s1 show ?case by (auto intro: quiet_trans)
next
  case (SetLength n p)
  obtain s1 where s1: "set_trap sh sched fuel t (ToLength n) s = Some s1" "quiet s s1"
    using set_trap_paused[OF SetLength.prems(2)] by blast
  have "\<not> shouldTrack s1" "0 < pauseScheduleStack s1"
    using s1(2) SetLength.prems by (simp_all add: quiet_def pause_state_def)
  from SetLength.IH[OF this] s1 show ?case by (auto intro: quiet_trans)
next
  case (DeleteIndex i p)
  obtain s1 where s1: "delete_trap sh sched fuel t i s = Some s1" "quiet s s1"
    using delete_trap_paused[OF DeleteIndex.prems(2)] by blast
  have "\<not> shouldTrack s1" "0 < pauseScheduleStack s1"
    using s1(2) DeleteIndex.prems by (simp_all add: quiet_def pause_state_def)
  from DeleteIndex.IH[OF this] s1 show ?case by (auto intro: quiet_trans)
next
  case (GetProp name p)
  show ?case
    using GetProp.IH[OF GetProp.prems] GetProp.prems
    by (simp add: get_prop_trap_def track_paused)
qed

subsection \<open>Balance\<close>

lemma ps_cleanupDepEffect: "pause_state (cleanupDepEffect d e s) = pause_state s"
  by (simp add: pause_state_def cleanupDepEffect_def run_dep_cleanup_def Let_def split: option.splits)

lemma ps_trackEffect: "pause_state (trackEffect e d s) = pause_state s"
proof -
  have c: "shouldTrack (cleanupDepEffect d' e' s') = shouldTrack s' \<and>
           trackStack (cleanupDepEffect d' e' s') = trackStack s' \<and>
           pauseScheduleStack (cleanupDepEffect d' e' s') = pauseScheduleStack s'" for d' e' s'
    using ps_cleanupDepEffect[of d' e' s'] by (simp add: pause_state_def)
  show ?thesis
    by (simp add: pause_state_def trackEffect_def Let_def upd_effect_def c split: option.splits)
qed

lemma ps_track: "pause_state (track t key s) = pause_state s"
proof -
  have c: "shouldTrack (trackEffect e' d' s') = shouldTrack s' \<and>
           trackStack (trackEffect e' d' s') = trackStack s' \<and>
           pauseScheduleStack (trackEffect e' d' s') = pauseScheduleStack s'" for d' e' s'
    using ps_trackEffect[of e' d' s'] by (simp add: pause_state_def)
  show ?thesis
    by (simp add: pause_state_def track_def Let_def c split: option.splits)
qed

lemma ps_pre: "pause_state (preCleanupEffect e s) = pause_state s"
  by (simp add: pause_state_def preCleanupEffect_def upd_effect_def)

lemma ps_post: "pause_state (postCleanupEffect e s) = pause_state s"
proof -
  have "pause_state (fold (\<lambda>d. cleanupDepEffect d e) ds s') = pause_state s'" for ds s'
    by (induction ds arbitrary: s') (simp_all add: ps_cleanupDepEffect)
  then show ?thesis
    by (simp add: postCleanupEffect_def Let_def upd_effect_def pause_state_def)
qed

lemma drain_balanced:
  "balanced sched \<Longrightarrow> drain_schedulers sched fuel s = Some s' \<Longrightarrow> pause_state s' = pause_state s"
proof (induction fuel arbitrary: s)
  case 0
  then show ?case by (simp split: if_splits)
next
  case (Suc n)
  show ?case
  proof (cases "pauseScheduleStack s = 0 \<and> queueEffectSchedulers s \<noteq> []")
    case False
    then show ?thesis using Suc.prems(2) by auto
  next
    case True
    let ?s0 = "s\<lparr>queueEffectSchedulers := tl (queueEffectSchedulers s)\<rparr>"
    from True Suc.prems(2) obtain s1 where
      s1: "sched (hd (queueEffectSchedulers s)) ?s0 = Some s1" "drain_schedulers sched n s1 = Some s'"
      by (auto split: option.splits)
    have "pause_state s1 = pause_state ?s0" using Suc.prems(1) s1(1) unfolding balanced_def by blast
    then show ?thesis using Suc.IH[OF Suc.prems(1) s1(2)] by (simp add: pause_state_def)
  qed
qed

lemma resetScheduling_balanced:
  "balanced sched \<Longrightarrow> resetScheduling sched fuel s = Some s' \<Longrightarrow>
   pause_state s' = (shouldTrack s, trackStack s, pauseScheduleStack s - 1)"
  unfolding resetScheduling_def
  by (drule (1) drain_balanced) (simp add: pause_state_def)

lemma triggerEffects_balanced:
  assumes "balanced sched" "triggerEffects sched fuel d lvl s = Some s'"
  shows "pause_state s' = pause_state s"
proof -
  have "quiet s ((mark_and_schedule d lvl s)\<lparr>pauseScheduleStack := pauseScheduleStack s\<rparr>)"
    by (rule quiet_mark_and_schedule)
  then have "shouldTrack (mark_and_schedule d lvl s) = shouldTrack s \<and>
             trackStack (mark_and_schedule d lvl s) = trackStack s"
    by (simp add: quiet_def pause_state_def)
  then show ?thesis
    using resetScheduling_balanced[OF assms(1) assms(2)[unfolded triggerEffects_def]]
    by (simp add: pause_state_def mark_and_schedule_frame)
qed

lemma trigger_each_balanced:
  "balanced sched \<Longrightarrow> trigger_each sched fuel ds s = Some s' \<Longrightarrow> pause_state s' = pause_state s"
proof (induction ds arbitrary: s)
  case Nil
  then show ?case by simp
next
  case (Cons x ds)
  show ?case
  proof (cases x)
    case None
    then show ?thesis using Cons by simp
  next
    case (Some d)
    from Cons.prems(2) Some obtain s1 where
      s1: "triggerEffects sched fuel d Dirty s = Some s1" "trigger_each sched fuel ds s1 = Some s'"
      by (auto split: option.splits)
    show ?thesis
      using triggerEffects_balanced[OF Cons.prems(1) s1(1)] Cons.IH[OF Cons.prems(1) s1(2)] by simp
  qed
qed

lemma trigger_balanced:
  assumes "balanced sched" "trigger sh sched fuel t type key newLength s = Some s'"
  shows "pause_state s' = pause_state s"
proof (cases "targetMap s t")
  case None
  then show ?thesis using assms(2) by (simp add: trigger_def)
next
  case (Some depsMap)
  from assms(2) Some obtain s1 where
    s1: "trigger_each sched fuel (collect_deps sh (kinds s t) depsMap type key newLength)
           (pauseScheduling s) = Some s1"
        "resetScheduling sched fuel s1 = Some s'"
    by (auto simp: trigger_def split: option.splits)
  show ?thesis
    using trigger_each_balanced[OF assms(1) s1(1)] resetScheduling_balanced[OF assms(1) s1(2)]
    by (simp add: pause_state_def pauseScheduling_def)
qed

lemma set_trap_balanced:
  assumes "balanced sched" "set_trap sh sched fuel t w s = Some s'"
  shows "pause_state s' = pause_state s"
proof -
  define s1 where "s1 = s\<lparr>arrays := (arrays s)(t := array_set (arrays s t) w)\<rparr>"
  have p1: "pause_state s1 = pause_state s" by (simp add: s1_def pause_state_def)
  have "set_trap sh sched fuel t w s = trigger sh sched fuel t ADD (key_of (w_key w)) (Num (w_value w)) s1 \<or>
        set_trap sh sched fuel t w s = trigger sh sched fuel t SET (key_of (w_key w)) (Num (w_value w)) s1 \<or>
        set_trap sh sched fuel t w s = Some s1"
    by (simp add: set_trap_def Let_def s1_def)
  then show ?thesis
    using assms(2) p1 trigger_balanced[OF assms(1), of sh fuel t _ "key_of (w_key w)" "Num (w_value w)" s1 s']
    by (elim disjE) simp_all
qed

lemma delete_trap_balanced:
  assumes "balanced sched" "delete_trap sh sched fuel t i s = Some s'"
  shows "pause_state s' = pause_state s"
proof -
  define s1 where "s1 = s\<lparr>arrays := (arrays s)(t := array_delete (arrays s t) i)\<rparr>"
  have p1: "pause_state s1 = pause_state s" by (simp add: s1_def pause_state_def)
  have "delete_trap sh sched fuel t i s = trigger sh sched fuel t DELETE (key_of (Index i)) NaN s1 \<or>
        delete_trap sh sched fuel t i s = Some s1"
    by (simp add: delete_trap_def Let_def s1_def)
  then show ?thesis
    using assms(2) p1 trigger_balanced[OF assms(1), of sh fuel t DELETE "key_of (Index i)" NaN s1 s']
    by (elim disjE) simp_all
qed

lemma run_script_balanced:
  "balanced sched \<Longrightarrow> run_script sh sched fuel t p s = Some (res, s') \<Longrightarrow>
   pause_state s' = pause_state s"
proof (induction p arbitrary: s)
  case (Done r)
  then show ?case by simp
next
  case (GetLength f)
  from GetLength.IH[OF rangeI GetLength.prems(1)] GetLength.prems(2)
  show ?case by (simp add: get_trap_def ps_track)
next
  case (GetIndex i f)
  from GetIndex.IH[OF rangeI GetIndex.prems(1)] GetIndex.prems(2)
  show ?case by (simp add: get_trap_def ps_track)
next
  case (HasIndex i f)
  from HasIndex.IH[OF rangeI HasIndex.prems(1)] HasIndex.prems(2)
  show ?case by (simp add: has_trap_def ps_track)
next
  case (SetIndex i v p)
  from SetIndex.prems(2) obtain s1 where
    s1: "set_trap sh sched fuel t (ToIndex i v) s = Some s1" "run_script sh sched fuel t p s1 = Some (res, s')"
    by (auto split: option.splits)
  show ?case
    using set_trap_balanced[OF SetIndex.prems(1) s1(1)] SetIndex.IH[OF SetIndex.prems(1) s1(2)] by simp
next
  case (SetLength n p)
  from SetLength.prems(2) obtain s1 where
    s1: "set_trap sh sched fuel t (ToLength n) s = Some s1" "run_script sh sched fuel t p s1 = Some (res, s')"
    by (auto split: option.splits)
  show ?case
    using set_trap_balanced[OF SetLength.prems(1) s1(1)] SetLength.IH[OF SetLength.prems(1) s1(2)] by simp
next
  case (DeleteIndex i p)
  from DeleteIndex.prems(2) obtain s1 where
    s1: "delete_trap sh sched fuel t i s = Some s1" "run_script sh sched fuel t p s1 = Some (res, s')"
    by (auto split: option.splits)
  show ?case
    using delete_trap_balanced[OF DeleteIndex.prems(1) s1(1)] DeleteIndex.IH[OF DeleteIndex.prems(1) s1(2)]
    by simp
next
  case (GetProp name p)
  from GetProp.IH[OF GetProp.prems(1)] GetProp.prems(2)
  show ?case by (simp add: get_prop_trap_def ps_track split: if_splits)
qed

lemma resetTracking_pauseTracking:
  "trackStack s' = trackStack s @ [b] \<Longrightarrow>
   shouldTrack (resetTracking s') = b \<and> trackStack (resetTracking s') = trackStack s \<and>
   pauseScheduleStack (resetTracking s') = pauseScheduleStack s'"
  by (simp add: resetTracking_def)

lemma instrumented_balanced:
  assumes "balanced sched" "instrumented sh sched fuel t p s = Some (res, s')"
  shows "pause_state s' = pause_state s"
proof -
  let ?s1 = "pauseScheduling (pauseTracking s)"
  from assms(2) obtain s2 s3 where
    s2: "run_script sh sched fuel t p ?s1 = Some (res, s2)" and
    s3: "resetScheduling sched fuel s2 = Some s3" and
    s': "s' = resetTracking s3"
    by (auto simp: instrumented_def split: option.splits)
  have p2: "pause_state s2 = pause_state ?s1" by (rule run_script_balanced[OF assms(1) s2])
  have p3: "pause_state s3 = (shouldTrack s2, trackStack s2, pauseScheduleStack s2 - 1)"
    by (rule resetScheduling_balanced[OF assms(1) s3])
  have "trackStack s3 = trackStack s @ [shouldTrack s]" "pauseScheduleStack s3 = pauseScheduleStack s"
    using p2 p3 by (simp_all add: pause_state_def pauseScheduling_def pauseTracking_def)
  then show ?thesis
    using resetTracking_pauseTracking[of s3 s "shouldTrack s"] by (simp add: s' pause_state_def)
qed

lemma exec_stmt_balanced:
  "balanced sched \<Longrightarrow> exec_stmt sh sched fuel st s = Some s' \<Longrightarrow> pause_state s' = pause_state s"
  by (cases st) (auto simp: exec_stmt_def dest: instrumented_balanced run_script_balanced)

lemma exec_body_balanced:
  "balanced sched \<Longrightarrow> exec_body sh sched fuel sts s = Some s' \<Longrightarrow> pause_state s' = pause_state s"
proof (induction sts arbitrary: s)
  case Nil
  then show ?case by simp
next
  case (Cons st sts)
  from Cons.prems(2) obtain s1 where
    s1: "exec_stmt sh sched fuel st s = Some s1" "exec_body sh sched fuel sts s1 = Some s'"
    by (auto split: option.splits)
  show ?case
    using exec_stmt_balanced[OF Cons.prems(1) s1(1)] Cons.IH[OF Cons.prems(1) s1(2)] by simp
qed

lemma effect_run_balanced:
  assumes "balanced sched" "effect_run sh sched fuel body e s = Some s'"
  shows "pause_state s' = pause_state s"
proof -
  define s0 where "s0 = upd_effect e (\<lambda>ef. ef\<lparr>ef_dirtyLevel := NotDirty\<rparr>) s"
  have p0: "pause_state s0 = pause_state s" by (simp add: s0_def upd_effect_def pause_state_def)
  show ?thesis
  proof (cases "ef_active (k_effects s0 e)")
    case False
    then have "exec_body sh sched fuel (body e) (s0\<lparr>runs := runs s0 @ [e]\<rparr>) = Some s'"
      using assms(2) by (simp add: effect_run_def Let_def s0_def)
    from exec_body_balanced[OF assms(1) this] p0 show ?thesis by (simp add: pause_state_def)
  next
    case True
    define s3 where "s3 = preCleanupEffect e
        (upd_effect e (\<lambda>ef. ef\<lparr>ef_runnings := ef_runnings ef + 1\<rparr>)
           (s0\<lparr>shouldTrack := True, activeEffect := Some e\<rparr>))"
    have p3: "trackStack s3 = trackStack s \<and> pauseScheduleStack s3 = pauseScheduleStack s"
      using p0 ps_pre[of e "upd_effect e (\<lambda>ef. ef\<lparr>ef_runnings := ef_runnings ef + 1\<rparr>)
           (s0\<lparr>shouldTrack := True, activeEffect := Some e\<rparr>)"]
      by (simp add: s3_def pause_state_def upd_effect_def)
    from True assms(2) obtain s4 where
      s4: "exec_body sh sched fuel (body e) (s3\<lparr>runs := runs s3 @ [e]\<rparr>) = Some s4" and
      s': "s' = (upd_effect e (\<lambda>ef. ef\<lparr>ef_runnings := ef_runnings ef - 1\<rparr>)
                         (postCleanupEffect e s4))
                      \<lparr>activeEffect := activeEffect s0, shouldTrack := shouldTrack s0\<rparr>"
      by (auto simp: effect_run_def Let_def s0_def[symmetric] s3_def[symmetric] split: option.splits)
    have p4: "trackStack s4 = trackStack s \<and> pauseScheduleStack s4 = pauseScheduleStack s"
      using exec_body_balanced[OF assms(1) s4] p3 by (simp add: pause_state_def)
    show ?thesis
      using p4 p0 ps_post[of e s4] by (simp add: s' pause_state_def upd_effect_def)
  qed
qed

lemma effect_dirty_balanced: "pause_state (snd (effect_dirty e s)) = pause_state s"
  by (simp add: effect_dirty_def Let_def pause_state_def pauseTracking_def resetTracking_def
      upd_effect_def)

lemma effect_scheduler_balanced:
  assumes "balanced sched"
  shows "balanced (effect_scheduler sh sched fuel body)"
  unfolding balanced_def
proof (intro allI impI)
  fix e s s'
  assume a: "effect_scheduler sh sched fuel body e s = Some s'"
  obtain dirty s1 where d: "effect_dirty e s = (dirty, s1)" by (cases "effect_dirty e s") auto
  have p1: "pause_state s1 = pause_state s" using effect_dirty_balanced[of e s] d by simp
  show "pause_state s' = pause_state s"
  proof (cases dirty)
    case True
    then have "effect_run sh sched fuel body e s1 = Some s'"
      using a d by (simp add: effect_scheduler_def)
    from effect_run_balanced[OF assms this] p1 show ?thesis by simp
  next
    case False
    then show ?thesis using a d p1 by (simp add: effect_scheduler_def)
  qed
qed

lemma scheduler_of_balanced: "balanced (scheduler_of sh body n)"
proof (induction n)
  case 0
  show ?case by (simp add: balanced_def)
next
  case (Suc n)
  show ?case using effect_scheduler_balanced[OF Suc] by simp
qed

subsection \<open>The instrumented methods\<close>

lemma instrumented_suspends_aux:
  assumes "0 \<le> pauseScheduleStack s"
  shows "\<exists>res s2.
      run_script sh sched fuel t p (pauseScheduling (pauseTracking s)) = Some (res, s2) \<and>
      \<not> shouldTrack s2 \<and> pauseScheduleStack s2 = pauseScheduleStack s + 1 \<and>
      same_graph s s2 \<and> runs s2 = runs s \<and>
      instrumented sh sched fuel t p s =
        map_option (\<lambda>s3. (res, resetTracking s3)) (resetScheduling sched fuel s2)"
proof -
  let ?s1 = "pauseScheduling (pauseTracking s)"
  have a: "\<not> shouldTrack ?s1" "0 < pauseScheduleStack ?s1"
    using assms by (simp_all add: pauseScheduling_def pauseTracking_def)
  from run_script_paused[OF a, of sh sched fuel t p] obtain res s2 where
    r: "run_script sh sched fuel t p ?s1 = Some (res, s2)" and q: "quiet ?s1 s2" by blast
  have g: "same_graph s s2 \<and> runs s2 = runs s"
    using q by (simp add: quiet_def same_graph_def pauseScheduling_def pauseTracking_def)
  have f: "\<not> shouldTrack s2 \<and> pauseScheduleStack s2 = pauseScheduleStack s + 1"
    using q a by (simp add: quiet_def pause_state_def pauseScheduling_def pauseTracking_def)
  have i: "instrumented sh sched fuel t p s =
        map_option (\<lambda>s3. (res, resetTracking s3)) (resetScheduling sched fuel s2)"
    using r by (simp add: instrumented_def split: option.splits)
  show ?thesis using r g f i by blast
qed

lemma resetScheduling_returns:
  "queueEffectSchedulers s = [] \<or> pauseScheduleStack s \<noteq> 1 \<Longrightarrow> resetScheduling sched fuel s \<noteq> None"
  by (auto simp: resetScheduling_def drain_empty drain_paused)

subsection \<open>Effects out of reach\<close>

lemma spared_refl: "unsubscribed e s \<Longrightarrow> spared e s s"
  by (simp add: spared_def)

lemma spared_trans: "spared e s s1 \<Longrightarrow> spared e s1 s2 \<Longrightarrow> spared e s s2"
  by (simp add: spared_def)

lemma spared_unsubscribed: "spared e s s' \<Longrightarrow> unsubscribed e s'"
  by (simp add: spared_def)

lemma not_tracking_cong:
  "activeEffect s' = activeEffect s \<Longrightarrow> pause_state s' = pause_state s \<Longrightarrow>
   not_tracking e s' = not_tracking e s"
  by (simp add: not_tracking_def pause_state_def)

lemma spared_not_tracking:
  "spared e s s' \<Longrightarrow> pause_state s' = pause_state s \<Longrightarrow> not_tracking e s \<Longrightarrow> not_tracking e s'"
  by (simp add: spared_def not_tracking_def pause_state_def)

lemma unsubscribed_not_key: "unsubscribed e s \<Longrightarrow> e \<notin> set (dep_keys s d)"
  unfolding unsubscribed_def dep_get_def dep_keys_def
  by (metis map_of_eq_None_iff set_map)

lemma trigger_effect_spared: "e' \<noteq> e \<Longrightarrow> unsubscribed e s \<Longrightarrow> spared e s (trigger_effect d lvl e' s)"
  by (simp add: spared_def unsubscribed_def trigger_effect_def upd_effect_def Let_def dep_get_def)

lemma schedule_effect_spared: "e' \<noteq> e \<Longrightarrow> unsubscribed e s \<Longrightarrow> spared e s (schedule_effect d e' s)"
  by (simp add: spared_def unsubscribed_def schedule_effect_def upd_effect_def Let_def dep_get_def)

lemma fold_spared:
  "(\<And>x s. x \<in> set xs \<Longrightarrow> unsubscribed e s \<Longrightarrow> spared e s (f x s)) \<Longrightarrow> unsubscribed e s \<Longrightarrow>
   spared e s (fold f xs s)"
proof (induction xs arbitrary: s)
  case Nil
  then show ?case by (simp add: spared_refl)
next
  case (Cons x xs)
  have a: "spared e s (f x s)" using Cons.prems by simp
  have b: "spared e (f x s) (fold f xs (f x s))"
    using Cons.IH[of "f x s"] Cons.prems(1) spared_unsubscribed[OF a] by simp
  show ?case using spared_trans[OF a b] by simp
qed

lemma mark_and_schedule_spared:
  assumes u: "unsubscribed e s"
  shows "spared e s ((mark_and_schedule d lvl s)\<lparr>pauseScheduleStack := pauseScheduleStack s\<rparr>)"
proof -
  let ?s1 = "pauseScheduling s"
  let ?s2 = "fold (trigger_effect d lvl) (dep_keys ?s1 d) ?s1"
  let ?s3 = "fold (schedule_effect d) (dep_keys ?s2 d) ?s2"
  have u1: "unsubscribed e ?s1" using u by (simp add: unsubscribed_def pauseScheduling_def dep_get_def)
  have a: "spared e ?s1 ?s2"
    by (rule fold_spared[OF _ u1]) (use unsubscribed_not_key[OF u1, of d] in \<open>auto intro: trigger_effect_spared\<close>)
  have u2: "unsubscribed e ?s2" by (rule spared_unsubscribed[OF a])
  have b: "spared e ?s2 ?s3"
    by (rule fold_spared[OF _ u2]) (use unsubscribed_not_key[OF u2, of d] in \<open>auto intro: schedule_effect_spared\<close>)
  have "spared e ?s1 ?s3" by (rule spared_trans[OF a b])
  then show ?thesis
    by (simp add: mark_and_schedule_def scheduleEffects_def Let_def spared_def unsubscribed_def
        pauseScheduling_def dep_get_def)
qed


lemma cleanupDepEffect_rest:
  "queueEffectSchedulers (cleanupDepEffect d e s) = queueEffectSchedulers s \<and>
   runs (cleanupDepEffect d e s) = runs s \<and> activeEffect (cleanupDepEffect d e s) = activeEffect s"
  by (simp add: cleanupDepEffect_def run_dep_cleanup_def Let_def split: option.splits)

lemma trackEffect_other:
  assumes "e' \<noteq> e"
  shows "dep_get (trackEffect e' d s) d' e = dep_get s d' e \<and>
         k_effects (trackEffect e' d s) e = k_effects s e \<and>
         queueEffectSchedulers (trackEffect e' d s) = queueEffectSchedulers s \<and>
         runs (trackEffect e' d s) = runs s \<and> activeEffect (trackEffect e' d s) = activeEffect s"
proof -
  define s1 where "s1 = s\<lparr>k_deps := (k_deps s)
                    (d := (k_deps s d)\<lparr>dep_entries :=
                       map_set (dep_entries (k_deps s d)) e' (ef_trackId (k_effects s e'))\<rparr>)\<rparr>"
  have g1: "dep_get s1 d' e = dep_get s d' e"
    using assms by (simp add: s1_def dep_get_def map_of_map_set)
  have g2: "dep_get (cleanupDepEffect od e' s1) d' e = dep_get s d' e" for od
    using assms g1 by (simp add: cleanupDepEffect_dep_get)
  have r1: "k_effects s1 = k_effects s" "queueEffectSchedulers s1 = queueEffectSchedulers s"
    "runs s1 = runs s" "activeEffect s1 = activeEffect s"
    by (simp_all add: s1_def)
  have up: "dep_get (upd_effect x f s') d' e = dep_get s' d' e" for x f s'
    by (simp add: upd_effect_def dep_get_def)
  show ?thesis
    using assms
    by (simp add: trackEffect_def Let_def s1_def[symmetric] g1 g2 r1 up cleanupDepEffect_rest
        cleanupDepEffect_frame split: option.splits)
       (simp add: upd_effect_def r1 cleanupDepEffect_rest cleanupDepEffect_frame)
qed

lemma trackEffect_spared:
  "e' \<noteq> e \<Longrightarrow> unsubscribed e s \<Longrightarrow> spared e s (trackEffect e' d s)"
  by (simp add: spared_def unsubscribed_def trackEffect_other)

lemma track_spared:
  assumes u: "unsubscribed e s" and nt: "not_tracking e s"
  shows "spared e s (track t key s)"
proof (cases "activeEffect s")
  case None
  then show ?thesis using u by (simp add: track_def spared_refl)
next
  case (Some e')
  show ?thesis
  proof (cases "shouldTrack s")
    case False
    then show ?thesis using u Some by (simp add: track_def spared_refl)
  next
    case True
    then have ne: "e' \<noteq> e" using nt Some by (auto simp: not_tracking_def)
    define s1 where "s1 = (case targetMap s t of
                         None \<Rightarrow> s\<lparr>targetMap := (targetMap s)(t \<mapsto> [])\<rparr>
                       | Some depsMap \<Rightarrow> s)"
    have q1: "spared e s s1"
      using u by (simp add: s1_def spared_def unsubscribed_def dep_get_def split: option.splits)
    have u1: "unsubscribed e s1" by (rule spared_unsubscribed[OF q1])
    show ?thesis
    proof (cases "map_of (the (targetMap s1 t)) key")
      case (Some d)
      then have "track t key s = trackEffect e' d s1"
        using \<open>activeEffect s = Some e'\<close> True by (simp add: track_def Let_def s1_def[symmetric])
      then show ?thesis using spared_trans[OF q1 trackEffect_spared[OF ne u1]] by simp
    next
      case None
      define s2 where "s2 = s1\<lparr>k_deps := (k_deps s1)
                                   (next_dep s1 := \<lparr>dep_entries = [], dep_cleanup = Some (t, key)\<rparr>),
                                 targetMap := (targetMap s1)(t \<mapsto> map_set (the (targetMap s1 t)) key (next_dep s1)),
                                 next_dep := Suc (next_dep s1)\<rparr>"
      have q2: "spared e s1 s2"
        using u1 by (simp add: s2_def spared_def unsubscribed_def dep_get_def)
      have "track t key s = trackEffect e' (next_dep s1) s2"
        using \<open>activeEffect s = Some e'\<close> True None
        by (simp add: track_def Let_def s1_def[symmetric] s2_def)
      then show ?thesis
        using spared_trans[OF spared_trans[OF q1 q2] trackEffect_spared[OF ne spared_unsubscribed[OF q2]]]
        by simp
    qed
  qed
qed

lemma drain_spared:
  "spares e sched \<Longrightarrow> unsubscribed e s \<Longrightarrow> not_tracking e s \<Longrightarrow>
   drain_schedulers sched fuel s = Some s' \<Longrightarrow> spared e s s' \<and> pause_state s' = pause_state s"
proof (induction fuel arbitrary: s)
  case 0
  then show ?case by (simp add: spared_refl split: if_splits)
next
  case (Suc n)
  show ?case
  proof (cases "pauseScheduleStack s = 0 \<and> queueEffectSchedulers s \<noteq> []")
    case False
    then show ?thesis using Suc.prems by (auto simp: spared_refl)
  next
    case True
    let ?e' = "hd (queueEffectSchedulers s)"
    let ?s0 = "s\<lparr>queueEffectSchedulers := tl (queueEffectSchedulers s)\<rparr>"
    from True Suc.prems(4) obtain s1 where
      s1: "sched ?e' ?s0 = Some s1" "drain_schedulers sched n s1 = Some s'"
      by (auto split: option.splits)
    have ne: "?e' \<noteq> e" using True Suc.prems(2) by (auto simp: unsubscribed_def)
    have "set (tl (queueEffectSchedulers s)) \<subseteq> set (queueEffectSchedulers s)"
      by (cases "queueEffectSchedulers s") auto
    then have q0: "spared e s ?s0"
      using Suc.prems(2) by (auto simp: spared_def unsubscribed_def dep_get_def)
    have u0: "unsubscribed e ?s0" by (rule spared_unsubscribed[OF q0])
    have nt0: "not_tracking e ?s0" using Suc.prems(3) by (simp add: not_tracking_def)
    have q1: "spared e ?s0 s1" "pause_state s1 = pause_state ?s0"
      using Suc.prems(1) ne u0 nt0 s1(1) unfolding spares_def by blast+
    have nt1: "not_tracking e s1" by (rule spared_not_tracking[OF q1 nt0])
    from Suc.IH[OF Suc.prems(1) spared_unsubscribed[OF q1(1)] nt1 s1(2)]
    have "spared e s1 s'" "pause_state s' = pause_state s1" by simp_all
    then show ?thesis
      using spared_trans[OF q0 spared_trans[OF q1(1)]] q1(2) by (simp add: pause_state_def)
  qed
qed

lemma resetScheduling_spared:
  assumes "spares e sched" "unsubscribed e s" "not_tracking e s"
    "resetScheduling sched fuel s = Some s'"
  shows "spared e s s' \<and> pause_state s' = (shouldTrack s, trackStack s, pauseScheduleStack s - 1)"
proof -
  let ?s0 = "s\<lparr>pauseScheduleStack := pauseScheduleStack s - 1\<rparr>"
  have q0: "spared e s ?s0" using assms(2) by (simp add: spared_def unsubscribed_def dep_get_def)
  have nt0: "not_tracking e ?s0" using assms(3) by (simp add: not_tracking_def)
  from drain_spared[OF assms(1) spared_unsubscribed[OF q0] nt0 assms(4)[unfolded resetScheduling_def]]
  show ?thesis using spared_trans[OF q0] by (simp add: pause_state_def)
qed


lemma triggerEffects_spared:
  assumes sp: "spares e sched" and u: "unsubscribed e s" and nt: "not_tracking e s"
    and r: "triggerEffects sched fuel d lvl s = Some s'"
  shows "spared e s s' \<and> pause_state s' = pause_state s"
proof -
  let ?m = "mark_and_schedule d lvl s"
  have q: "spared e s (?m\<lparr>pauseScheduleStack := pauseScheduleStack s\<rparr>)"
    by (rule mark_and_schedule_spared[OF u])
  have qm: "spared e s ?m" using q by (simp add: spared_def unsubscribed_def dep_get_def)
  have pm: "pause_state ?m = (shouldTrack s, trackStack s, pauseScheduleStack s + 1)"
    using quiet_mark_and_schedule[of s d lvl]
    by (simp add: quiet_def pause_state_def mark_and_schedule_frame)
  have ntm: "not_tracking e ?m" using nt qm pm by (simp add: not_tracking_def spared_def pause_state_def)
  from resetScheduling_spared[OF sp spared_unsubscribed[OF qm] ntm r[unfolded triggerEffects_def]]
  show ?thesis using spared_trans[OF qm] pm by (simp add: pause_state_def)
qed

lemma trigger_each_spared:
  "spares e sched \<Longrightarrow> unsubscribed e s \<Longrightarrow> not_tracking e s \<Longrightarrow>
   trigger_each sched fuel ds s = Some s' \<Longrightarrow> spared e s s' \<and> pause_state s' = pause_state s"
proof (induction ds arbitrary: s)
  case Nil
  then show ?case by (simp add: spared_refl)
next
  case (Cons x ds)
  show ?case
  proof (cases x)
    case None
    then show ?thesis using Cons by simp
  next
    case (Some d)
    from Cons.prems(4) Some obtain s1 where
      s1: "triggerEffects sched fuel d Dirty s = Some s1" "trigger_each sched fuel ds s1 = Some s'"
      by (auto split: option.splits)
    have a: "spared e s s1" "pause_state s1 = pause_state s"
      using triggerEffects_spared[OF Cons.prems(1-3) s1(1)] by simp_all
    have b: "spared e s1 s'" "pause_state s' = pause_state s1"
      using Cons.IH[OF Cons.prems(1) spared_unsubscribed[OF a(1)]
          spared_not_tracking[OF a Cons.prems(3)] s1(2)] by simp_all
    show ?thesis using spared_trans[OF a(1) b(1)] a(2) b(2) by simp
  qed
qed

lemma trigger_spared:
  assumes sp: "spares e sched" and u: "unsubscribed e s" and nt: "not_tracking e s"
    and r: "trigger sh sched fuel t type key newLength s = Some s'"
  shows "spared e s s' \<and> pause_state s' = pause_state s"
proof (cases "targetMap s t")
  case None
  then show ?thesis using r u by (simp add: trigger_def spared_refl)
next
  case (Some depsMap)
  let ?s0 = "pauseScheduling s"
  from r Some obtain s1 where
    s1: "trigger_each sched fuel (collect_deps sh (kinds s t) depsMap type key newLength) ?s0 = Some s1"
        "resetScheduling sched fuel s1 = Some s'"
    by (auto simp: trigger_def split: option.splits)
  have q0: "spared e s ?s0" using u by (simp add: spared_def unsubscribed_def dep_get_def pauseScheduling_def)
  have nt0: "not_tracking e ?s0" using nt by (simp add: not_tracking_def pauseScheduling_def)
  have a: "spared e ?s0 s1" "pause_state s1 = pause_state ?s0"
    using trigger_each_spared[OF sp spared_unsubscribed[OF q0] nt0 s1(1)] by simp_all
  have b: "spared e s1 s'" "pause_state s' = (shouldTrack s1, trackStack s1, pauseScheduleStack s1 - 1)"
    using resetScheduling_spared[OF sp spared_unsubscribed[OF a(1)] spared_not_tracking[OF a nt0] s1(2)]
    by simp_all
  show ?thesis
    using spared_trans[OF q0 spared_trans[OF a(1) b(1)]] a(2) b(2)
    by (simp add: pause_state_def pauseScheduling_def)
qed

lemma trigger_spared_after:
  assumes sp: "spares e sched" and q: "spared e s s1" and p: "pause_state s1 = pause_state s"
    and nt: "not_tracking e s"
    and r: "trigger sh sched fuel t type key newLength s1 = Some s'"
  shows "spared e s s' \<and> pause_state s' = pause_state s"
  using trigger_spared[OF sp spared_unsubscribed[OF q] spared_not_tracking[OF q p nt] r]
    spared_trans[OF q] p by simp

lemma set_trap_spared:
  assumes sp: "spares e sched" and u: "unsubscribed e s" and nt: "not_tracking e s"
    and r: "set_trap sh sched fuel t w s = Some s'"
  shows "spared e s s' \<and> pause_state s' = pause_state s"
proof -
  define s1 where "s1 = s\<lparr>arrays := (arrays s)(t := array_set (arrays s t) w)\<rparr>"
  have q1: "spared e s s1" "pause_state s1 = pause_state s"
    using u by (simp_all add: s1_def spared_def unsubscribed_def dep_get_def pause_state_def)
  have "set_trap sh sched fuel t w s = trigger sh sched fuel t ADD (key_of (w_key w)) (Num (w_value w)) s1 \<or>
        set_trap sh sched fuel t w s = trigger sh sched fuel t SET (key_of (w_key w)) (Num (w_value w)) s1 \<or>
        set_trap sh sched fuel t w s = Some s1"
    by (simp add: set_trap_def Let_def s1_def)
  then show ?thesis
    using r q1 trigger_spared_after[OF sp q1 nt, of sh fuel t _ "key_of (w_key w)" "Num (w_value w)" s']
    by (elim disjE) simp_all
qed

lemma delete_trap_spared:
  assumes sp: "spares e sched" and u: "unsubscribed e s" and nt: "not_tracking e s"
    and r: "delete_trap sh sched fuel t i s = Some s'"
  shows "spared e s s' \<and> pause_state s' = pause_state s"
proof -
  define s1 where "s1 = s\<lparr>arrays := (arrays s)(t := array_delete (arrays s t) i)\<rparr>"
  have q1: "spared e s s1" "pause_state s1 = pause_state s"
    using u by (simp_all add: s1_def spared_def unsubscribed_def dep_get_def pause_state_def)
  have "delete_trap sh sched fuel t i s = trigger sh sched fuel t DELETE (key_of (Index i)) NaN s1 \<or>
        delete_trap sh sched fuel t i s = Some s1"
    by (simp add: delete_trap_def Let_def s1_def)
  then show ?thesis
    using r q1 trigger_spared_after[OF sp q1 nt, of sh fuel t DELETE "key_of (Index i)" NaN s']
    by (elim disjE) simp_all
qed

lemma run_script_spared:
  "spares e sched \<Longrightarrow> unsubscribed e s \<Longrightarrow> not_tracking e s \<Longrightarrow>
   run_script sh sched fuel t p s = Some (res, s') \<Longrightarrow>
   spared e s s' \<and> pause_state s' = pause_state s"
proof (induction p arbitrary: s)
  case (Done r)
  then show ?case by (simp add: spared_refl)
next
  case (GetLength f)
  let ?s1 = "track t (key_of Length) s"
  have a: "spared e s ?s1" "pause_state ?s1 = pause_state s"
    using track_spared[OF GetLength.prems(2,3)] ps_track by simp_all
  from GetLength.IH[OF rangeI GetLength.prems(1) spared_unsubscribed[OF a(1)]
      spared_not_tracking[OF a GetLength.prems(3)]] GetLength.prems(4)
  show ?case using spared_trans[OF a(1)] a(2) by (simp add: get_trap_def)
next
  case (GetIndex i f)
  let ?s1 = "track t (key_of (Index i)) s"
  have a: "spared e s ?s1" "pause_state ?s1 = pause_state s"
    using track_spared[OF GetIndex.prems(2,3)] ps_track by simp_all
  from GetIndex.IH[OF rangeI GetIndex.prems(1) spared_unsubscribed[OF a(1)]
      spared_not_tracking[OF a GetIndex.prems(3)]] GetIndex.prems(4)
  show ?case using spared_trans[OF a(1)] a(2) by (simp add: get_trap_def)
next
  case (HasIndex i f)
  let ?s1 = "track t (key_of (Index i)) s"
  have a: "spared e s ?s1" "pause_state ?s1 = pause_state s"
    using track_spared[OF HasIndex.prems(2,3)] ps_track by simp_all
  from HasIndex.IH[OF rangeI HasIndex.prems(1) spared_unsubscribed[OF a(1)]
      spared_not_tracking[OF a HasIndex.prems(3)]] HasIndex.prems(4)
  show ?case using spared_trans[OF a(1)] a(2) by (simp add: has_trap_def)
next
  case (SetIndex i v p)
  from SetIndex.prems(4) obtain s1 where
    s1: "set_trap sh sched fuel t (ToIndex i v) s = Some s1" "run_script sh sched fuel t p s1 = Some (res, s')"
    by (auto split: option.splits)
  have a: "spared e s s1" "pause_state s1 = pause_state s"
    using set_trap_spared[OF SetIndex.prems(1-3) s1(1)] by simp_all
  from SetIndex.IH[OF SetIndex.prems(1) spared_unsubscribed[OF a(1)]
      spared_not_tracking[OF a SetIndex.prems(3)] s1(2)]
  show ?case using spared_trans[OF a(1)] a(2) by simp
next
  case (SetLength n p)
  from SetLength.prems(4) obtain s1 where
    s1: "set_trap sh sched fuel t (ToLength n) s = Some s1" "run_script sh sched fuel t p s1 = Some (res, s')"
    by (auto split: option.splits)
  have a: "spared e s s1" "pause_state s1 = pause_state s"
    using set_trap_spared[OF SetLength.prems(1-3) s1(1)] by simp_all
  from SetLength.IH[OF SetLength.prems(1) spared_unsubscribed[OF a(1)]
      spared_not_tracking[OF a SetLength.prems(3)] s1(2)]
  show ?case using spared_trans[OF a(1)] a(2) by simp
next
  case (DeleteIndex i p)
  from DeleteIndex.prems(4) obtain s1 where
    s1: "delete_trap sh sched fuel t i s = Some s1" "run_script sh sched fuel t p s1 = Some (res, s')"
    by (auto split: option.splits)
  have a: "spared e s s1" "pause_state s1 = pause_state s"
    using delete_trap_spared[OF DeleteIndex.prems(1-3) s1(1)] by simp_all
  from DeleteIndex.IH[OF DeleteIndex.prems(1) spared_unsubscribed[OF a(1)]
      spared_not_tracking[OF a DeleteIndex.prems(3)] s1(2)]
  show ?case using spared_trans[OF a(1)] a(2) by simp
next
  case (GetProp name p)
  let ?s1 = "get_prop_trap t name s"
  have a: "spared e s ?s1" "pause_state ?s1 = pause_state s"
    using track_spared[OF GetProp.prems(2,3)] ps_track spared_refl[OF GetProp.prems(2)]
    by (simp_all add: get_prop_trap_def)
  from GetProp.IH[OF GetProp.prems(1) spared_unsubscribed[OF a(1)]
      spared_not_tracking[OF a GetProp.prems(3)]] GetProp.prems(4)
  show ?case using spared_trans[OF a(1)] a(2) by simp
qed

lemma instrumented_spared:
  assumes sp: "spares e sched" and u: "unsubscribed e s"
    and r: "instrumented sh sched fuel t p s = Some (res, s')"
  shows "spared e s s' \<and> pause_state s' = pause_state s"
proof -
  let ?s1 = "pauseScheduling (pauseTracking s)"
  from r obtain s2 s3 where
    s2: "run_script sh sched fuel t p ?s1 = Some (res, s2)" and
    s3: "resetScheduling sched fuel s2 = Some s3" and
    s': "s' = resetTracking s3"
    by (auto simp: instrumented_def split: option.splits)
  have q1: "spared e s ?s1"
    using u by (simp add: spared_def unsubscribed_def dep_get_def pauseScheduling_def pauseTracking_def)
  have nt1: "not_tracking e ?s1" by (simp add: not_tracking_def pauseScheduling_def pauseTracking_def)
  have a: "spared e ?s1 s2" "pause_state s2 = pause_state ?s1"
    using run_script_spared[OF sp spared_unsubscribed[OF q1] nt1 s2] by simp_all
  have b: "spared e s2 s3" "pause_state s3 = (shouldTrack s2, trackStack s2, pauseScheduleStack s2 - 1)"
    using resetScheduling_spared[OF sp spared_unsubscribed[OF a(1)] spared_not_tracking[OF a nt1] s3]
    by simp_all
  have q3: "spared e s s3" by (rule spared_trans[OF q1 spared_trans[OF a(1) b(1)]])
  have st: "trackStack s3 = trackStack s @ [shouldTrack s]" "pauseScheduleStack s3 = pauseScheduleStack s"
    using a(2) b(2) by (simp_all add: pause_state_def pauseScheduling_def pauseTracking_def)
  have q': "spared e s3 s'"
    using spared_unsubscribed[OF q3]
    by (simp add: s' spared_def unsubscribed_def dep_get_def resetTracking_def)
  show ?thesis
    using spared_trans[OF q3 q'] resetTracking_pauseTracking[of s3 s "shouldTrack s"] st
    by (simp add: s' pause_state_def)
qed



lemma exec_stmt_spared:
  assumes sp: "spares e sched" and u: "unsubscribed e s" and ok: "not_tracking e s \<or> is_call st"
    and r: "exec_stmt sh sched fuel st s = Some s'"
  shows "spared e s s' \<and> pause_state s' = pause_state s"
proof (cases st)
  case (Call t p)
  then obtain res where "instrumented sh sched fuel t p s = Some (res, s')"
    using r by (auto simp: exec_stmt_def)
  from instrumented_spared[OF sp u this] show ?thesis .
next
  case (Access t p)
  then obtain res where rs: "run_script sh sched fuel t p s = Some (res, s')"
    using r by (auto simp: exec_stmt_def)
  have nt: "not_tracking e s" using ok Access by simp
  from run_script_spared[OF sp u nt rs] show ?thesis .
qed

lemma exec_body_spared:
  "spares e sched \<Longrightarrow> unsubscribed e s \<Longrightarrow> not_tracking e s \<or> list_all is_call sts \<Longrightarrow>
   exec_body sh sched fuel sts s = Some s' \<Longrightarrow> spared e s s' \<and> pause_state s' = pause_state s"
proof (induction sts arbitrary: s)
  case Nil
  then show ?case by (simp add: spared_refl)
next
  case (Cons st sts)
  from Cons.prems(4) obtain s1 where
    s1: "exec_stmt sh sched fuel st s = Some s1" "exec_body sh sched fuel sts s1 = Some s'"
    by (auto split: option.splits)
  have ok1: "not_tracking e s \<or> is_call st" using Cons.prems(3) by auto
  have a: "spared e s s1" "pause_state s1 = pause_state s"
    using exec_stmt_spared[OF Cons.prems(1,2) ok1 s1(1)] by simp_all
  have ok2: "not_tracking e s1 \<or> list_all is_call sts"
    using Cons.prems(3) spared_not_tracking[OF a] by auto
  from Cons.IH[OF Cons.prems(1) spared_unsubscribed[OF a(1)] ok2 s1(2)]
  show ?case using spared_trans[OF a(1)] a(2) by simp
qed

lemma fold_cleanup_rest:
  "queueEffectSchedulers (fold (\<lambda>d. cleanupDepEffect d e) ds s) = queueEffectSchedulers s \<and>
   runs (fold (\<lambda>d. cleanupDepEffect d e) ds s) = runs s \<and>
   activeEffect (fold (\<lambda>d. cleanupDepEffect d e) ds s) = activeEffect s"
  by (induction ds arbitrary: s) (simp_all add: cleanupDepEffect_rest)

lemma postCleanupEffect_rest:
  "queueEffectSchedulers (postCleanupEffect e s) = queueEffectSchedulers s \<and>
   runs (postCleanupEffect e s) = runs s \<and> activeEffect (postCleanupEffect e s) = activeEffect s \<and>
   (e' \<noteq> e \<longrightarrow> k_effects (postCleanupEffect e s) e' = k_effects s e' \<and>
      dep_get (postCleanupEffect e s) d e' = dep_get s d e') \<and>
   (dep_get s d e = None \<longrightarrow> dep_get (postCleanupEffect e s) d e = None)"
proof -
  have g: "dep_get (upd_effect x f s0) d0 e0 = dep_get s0 d0 e0" for x f s0 d0 e0
    by (simp add: upd_effect_def dep_get_def)
  show ?thesis
    by (simp add: postCleanupEffect_def Let_def g fold_cleanup_dep_get fold_cleanup_frame)
       (simp add: upd_effect_def fold_cleanup_rest fold_cleanup_frame)
qed

lemma effect_run_spared:
  assumes sp: "spares e sched" and ne: "e' \<noteq> e" and u: "unsubscribed e s" and nt: "not_tracking e s"
    and r: "effect_run sh sched fuel body e' s = Some s'"
  shows "spared e s s' \<and> pause_state s' = pause_state s"
proof -
  define s0 where "s0 = upd_effect e' (\<lambda>ef. ef\<lparr>ef_dirtyLevel := NotDirty\<rparr>) s"
  have q0: "spared e s s0" "pause_state s0 = pause_state s"
    using u ne by (simp_all add: s0_def spared_def unsubscribed_def upd_effect_def dep_get_def pause_state_def)
  have u0: "unsubscribed e s0" by (rule spared_unsubscribed[OF q0(1)])
  show ?thesis
  proof (cases "ef_active (k_effects s0 e')")
    case False
    let ?s1 = "s0\<lparr>runs := runs s0 @ [e']\<rparr>"
    have b: "exec_body sh sched fuel (body e') ?s1 = Some s'"
      using r False by (simp add: effect_run_def Let_def s0_def)
    have q1: "spared e s0 ?s1" using u0 ne by (simp add: spared_def unsubscribed_def dep_get_def)
    have nt1: "not_tracking e ?s1" using nt q0 by (simp add: not_tracking_def spared_def pause_state_def)
    from exec_body_spared[OF sp spared_unsubscribed[OF q1] disjI1[OF nt1] b]
    show ?thesis using spared_trans[OF q0(1) spared_trans[OF q1]] q0(2) by (simp add: pause_state_def)
  next
    case True
    define s3 where "s3 = preCleanupEffect e'
        (upd_effect e' (\<lambda>ef. ef\<lparr>ef_runnings := ef_runnings ef + 1\<rparr>)
           (s0\<lparr>shouldTrack := True, activeEffect := Some e'\<rparr>))"
    let ?s3' = "s3\<lparr>runs := runs s3 @ [e']\<rparr>"
    from True r obtain s4 where
      s4: "exec_body sh sched fuel (body e') ?s3' = Some s4" and
      s': "s' = (upd_effect e' (\<lambda>ef. ef\<lparr>ef_runnings := ef_runnings ef - 1\<rparr>)
                         (postCleanupEffect e' s4))
                      \<lparr>activeEffect := activeEffect s0, shouldTrack := shouldTrack s0\<rparr>"
      by (auto simp: effect_run_def Let_def s0_def[symmetric] s3_def[symmetric] split: option.splits)
    have u3: "unsubscribed e ?s3'" "k_effects ?s3' e = k_effects s e"
      "count_list (runs ?s3') e = count_list (runs s) e" "activeEffect ?s3' = Some e'"
      "trackStack ?s3' = trackStack s" "pauseScheduleStack ?s3' = pauseScheduleStack s"
      using u0 ne q0
      by (simp_all add: s3_def s0_def preCleanupEffect_def upd_effect_def unsubscribed_def dep_get_def
          spared_def pause_state_def)
    have nt3: "not_tracking e ?s3'" using u3(4) ne by (simp add: not_tracking_def)
    have a: "spared e ?s3' s4" "pause_state s4 = pause_state ?s3'"
      using exec_body_spared[OF sp u3(1) disjI1[OF nt3] s4] by simp_all
    have u4: "unsubscribed e s4" by (rule spared_unsubscribed[OF a(1)])
    have post: "unsubscribed e (postCleanupEffect e' s4)"
      "k_effects (postCleanupEffect e' s4) e = k_effects s4 e"
      "runs (postCleanupEffect e' s4) = runs s4"
      using u4 ne postCleanupEffect_rest[of e' s4 e] by (simp_all add: unsubscribed_def)
    have sp': "spared e s s'"
      using post a(1) u3 ne q0(1)
      by (simp add: s' spared_def unsubscribed_def upd_effect_def dep_get_def s0_def)
    have pp: "pause_state s' = pause_state s"
      using a(2) u3(5,6) ps_post[of e' s4] q0(2)
      by (simp add: s' pause_state_def upd_effect_def)
    show ?thesis using sp' pp by simp
  qed
qed

lemma effect_dirty_spared:
  "e' \<noteq> e \<Longrightarrow> unsubscribed e s \<Longrightarrow> spared e s (snd (effect_dirty e' s))"
  by (simp add: effect_dirty_def Let_def spared_def unsubscribed_def pauseTracking_def
      resetTracking_def upd_effect_def dep_get_def)

lemma effect_scheduler_spares:
  assumes "spares e sched"
  shows "spares e (effect_scheduler sh sched fuel body)"
  unfolding spares_def
proof (intro allI impI)
  fix e' s s'
  assume a: "e' \<noteq> e \<and> unsubscribed e s \<and> not_tracking e s \<and>
             effect_scheduler sh sched fuel body e' s = Some s'"
  obtain dirty s1 where d: "effect_dirty e' s = (dirty, s1)" by (cases "effect_dirty e' s") auto
  have q1: "spared e s s1" using effect_dirty_spared[of e' e s] a d by simp
  have p1: "pause_state s1 = pause_state s" using effect_dirty_balanced[of e' s] d by simp
  show "spared e s s' \<and> pause_state s' = pause_state s"
  proof (cases dirty)
    case True
    then have "effect_run sh sched fuel body e' s1 = Some s'"
      using a d by (simp add: effect_scheduler_def)
    from effect_run_spared[OF assms _ spared_unsubscribed[OF q1] spared_not_tracking[OF q1 p1] this] a
    show ?thesis using spared_trans[OF q1] p1 by simp
  next
    case False
    then show ?thesis using a d q1 p1 by (simp add: effect_scheduler_def)
  qed
qed

lemma scheduler_of_spares: "spares e (scheduler_of sh body n)"
proof (induction n)
  case 0
  show ?case by (simp add: spares_def)
next
  case (Suc n)
  show ?case using effect_scheduler_spares[OF Suc] by simp
qed


lemma effect_calls_once:
  assumes u: "unsubscribed e s" and fresh: "k_effects s e = fresh_effect"
    and calls: "list_all is_call (body e)"
    and r: "effect sh body n e s = Some s'"
  shows "count_list (runs s') e = count_list (runs s) e + 1 \<and> unsubscribed e s' \<and>
         k_effects s' e = fresh_effect\<lparr>ef_dirtyLevel := NotDirty, ef_trackId := 1\<rparr> \<and>
         pause_state s' = pause_state s \<and> activeEffect s' = activeEffect s"
proof -
  let ?sched = "scheduler_of sh body n"
  define s0 where "s0 = upd_effect e (\<lambda>ef. ef\<lparr>ef_dirtyLevel := NotDirty\<rparr>) s"
  define s3 where "s3 = preCleanupEffect e
        (upd_effect e (\<lambda>ef. ef\<lparr>ef_runnings := ef_runnings ef + 1\<rparr>)
           (s0\<lparr>shouldTrack := True, activeEffect := Some e\<rparr>))"
  let ?s3' = "s3\<lparr>runs := runs s3 @ [e]\<rparr>"
  have act: "ef_active (k_effects s0 e)"
    using fresh by (simp add: s0_def upd_effect_def fresh_effect_def)
  from act r obtain s4 where
    s4: "exec_body sh ?sched n (body e) ?s3' = Some s4" and
    s': "s' = (upd_effect e (\<lambda>ef. ef\<lparr>ef_runnings := ef_runnings ef - 1\<rparr>)
                       (postCleanupEffect e s4))
                    \<lparr>activeEffect := activeEffect s0, shouldTrack := shouldTrack s0\<rparr>"
    by (auto simp: effect_def effect_run_def Let_def s0_def[symmetric] s3_def[symmetric]
        split: option.splits)
  have u3: "unsubscribed e ?s3'"
    using u by (simp add: s3_def s0_def preCleanupEffect_def upd_effect_def unsubscribed_def dep_get_def)
  have k3: "k_effects ?s3' e =
      fresh_effect\<lparr>ef_dirtyLevel := NotDirty, ef_runnings := 1, ef_trackId := 1\<rparr>"
    using fresh by (simp add: s3_def s0_def preCleanupEffect_def upd_effect_def fresh_effect_def)
  have r3: "count_list (runs ?s3') e = count_list (runs s) e + 1"
    "trackStack ?s3' = trackStack s" "pauseScheduleStack ?s3' = pauseScheduleStack s"
    "activeEffect s0 = activeEffect s" "shouldTrack s0 = shouldTrack s"
    by (simp_all add: s3_def s0_def preCleanupEffect_def upd_effect_def)
  have a: "spared e ?s3' s4" "pause_state s4 = pause_state ?s3'"
    using exec_body_spared[OF scheduler_of_spares u3 disjI2[OF calls] s4] by simp_all
  have k4: "k_effects s4 e =
      fresh_effect\<lparr>ef_dirtyLevel := NotDirty, ef_runnings := 1, ef_trackId := 1\<rparr>"
    using a(1) k3 by (simp add: spared_def)
  have post: "postCleanupEffect e s4 = s4"
    using k4 by (simp add: postCleanupEffect_def Let_def fresh_effect_def)
  have u4: "unsubscribed e s4" by (rule spared_unsubscribed[OF a(1)])
  have c4: "count_list (runs s4) e = count_list (runs s) e + 1"
    using a(1) r3(1) by (simp add: spared_def)
  show ?thesis
    using u4 k4 c4 a(2) r3
    by (simp add: s' post upd_effect_def unsubscribed_def dep_get_def pause_state_def fresh_effect_def)
qed

lemma run_script_no_deps:
  "\<not> shouldTrack s \<Longrightarrow> targetMap s t = None \<Longrightarrow>
   \<exists>res s'. run_script sh sched fuel t p s = Some (res, s') \<and>
     queueEffectSchedulers s' = queueEffectSchedulers s \<and> pauseScheduleStack s' = pauseScheduleStack s"
proof (induction p arbitrary: s)
  case (Done r)
  show ?case by simp
next
  case (GetLength f)
  show ?case using GetLength.IH[OF rangeI GetLength.prems] GetLength.prems
    by (simp add: get_trap_def track_paused)
next
  case (GetIndex i f)
  show ?case using GetIndex.IH[OF rangeI GetIndex.prems] GetIndex.prems
    by (simp add: get_trap_def track_paused)
next
  case (HasIndex i f)
  show ?case using HasIndex.IH[OF rangeI HasIndex.prems] HasIndex.prems
    by (simp add: has_trap_def track_paused)
next
  case (SetIndex i v p)
  let ?s1 = "s\<lparr>arrays := (arrays s)(t := array_set (arrays s t) (ToIndex i v))\<rparr>"
  have "set_trap sh sched fuel t (ToIndex i v) s = Some ?s1"
    using SetIndex.prems(2) by (simp add: set_trap_def Let_def trigger_def)
  then show ?case using SetIndex.IH[of ?s1] SetIndex.prems by simp
next
  case (SetLength n p)
  let ?s1 = "s\<lparr>arrays := (arrays s)(t := array_set (arrays s t) (ToLength n))\<rparr>"
  have "set_trap sh sched fuel t (ToLength n) s = Some ?s1"
    using SetLength.prems(2) by (simp add: set_trap_def Let_def trigger_def)
  then show ?case using SetLength.IH[of ?s1] SetLength.prems by simp
next
  case (DeleteIndex i p)
  let ?s1 = "s\<lparr>arrays := (arrays s)(t := array_delete (arrays s t) i)\<rparr>"
  have "delete_trap sh sched fuel t i s = Some ?s1"
    using DeleteIndex.prems(2) by (simp add: delete_trap_def Let_def trigger_def)
  then show ?case using DeleteIndex.IH[of ?s1] DeleteIndex.prems by simp
next
  case (GetProp name p)
  show ?case using GetProp.IH[OF GetProp.prems] GetProp.prems
    by (simp add: get_prop_trap_def track_paused)
qed

lemma instrumented_returns:
  assumes "0 < pauseScheduleStack s \<or> (queueEffectSchedulers s = [] \<and> targetMap s t = None)"
  shows "instrumented sh sched fuel t p s \<noteq> None"
proof -
  let ?s1 = "pauseScheduling (pauseTracking s)"
  have nts: "\<not> shouldTrack ?s1" by (simp add: pauseScheduling_def pauseTracking_def)
  from assms show ?thesis
  proof
    assume p: "0 < pauseScheduleStack s"
    then have p1: "0 < pauseScheduleStack ?s1" by (simp add: pauseScheduling_def pauseTracking_def)
    from run_script_paused[OF nts p1, of sh sched fuel t p] obtain res s2 where
      r: "run_script sh sched fuel t p ?s1 = Some (res, s2)" and q: "quiet ?s1 s2" by blast
    have "pauseScheduleStack s2 \<noteq> 1"
      using q p by (simp add: quiet_def pause_state_def pauseScheduling_def pauseTracking_def)
    then have "resetScheduling sched fuel s2 \<noteq> None"
      by (simp add: resetScheduling_def drain_paused)
    then show ?thesis using r by (auto simp: instrumented_def)
  next
    assume a: "queueEffectSchedulers s = [] \<and> targetMap s t = None"
    then have t1: "targetMap ?s1 t = None" by (simp add: pauseScheduling_def pauseTracking_def)
    from run_script_no_deps[OF nts t1, of sh sched fuel p] obtain res s2 where
      r: "run_script sh sched fuel t p ?s1 = Some (res, s2)" and
      q: "queueEffectSchedulers s2 = queueEffectSchedulers ?s1" by blast
    have "queueEffectSchedulers s2 = []" using q a by (simp add: pauseScheduling_def pauseTracking_def)
    then have "resetScheduling sched fuel s2 \<noteq> None"
      by (simp add: resetScheduling_def drain_empty)
    then show ?thesis using r by (auto simp: instrumented_def)
  qed
qed

lemma effect_call_returns:
  assumes fresh: "k_effects s e = fresh_effect" and b: "body e = [Call t p]"
    and c: "0 < pauseScheduleStack s \<or> (queueEffectSchedulers s = [] \<and> targetMap s t = None)"
  shows "effect sh body n e s \<noteq> None"
proof -
  let ?sched = "scheduler_of sh body n"
  define s0 where "s0 = upd_effect e (\<lambda>ef. ef\<lparr>ef_dirtyLevel := NotDirty\<rparr>) s"
  define s3 where "s3 = preCleanupEffect e
        (upd_effect e (\<lambda>ef. ef\<lparr>ef_runnings := ef_runnings ef + 1\<rparr>)
           (s0\<lparr>shouldTrack := True, activeEffect := Some e\<rparr>))"
  let ?s3' = "s3\<lparr>runs := runs s3 @ [e]\<rparr>"
  have act: "ef_active (k_effects s0 e)"
    using fresh by (simp add: s0_def upd_effect_def fresh_effect_def)
  have c3: "0 < pauseScheduleStack ?s3' \<or> (queueEffectSchedulers ?s3' = [] \<and> targetMap ?s3' t = None)"
    using c by (simp add: s3_def s0_def preCleanupEffect_def upd_effect_def)
  from instrumented_returns[OF c3, of sh ?sched n p]
  have "exec_body sh ?sched n (body e) ?s3' \<noteq> None"
    by (auto simp: b exec_stmt_def)
  then show ?thesis
    using act by (auto simp: effect_def effect_run_def Let_def s0_def[symmetric] s3_def[symmetric])
qed

subsection \<open>Concrete runs\<close>

lemmas array_eval = array_init_def bodies_def length_read_def array_view_def effect_def
  effect_run_def effect_scheduler_def effect_dirty_def exec_stmt_def instrumented_def
  raw_push_def set_trap_def get_trap_def key_of_def w_key_def w_value_def array_get_def
  hasOwn_def array_set_def trigger_def track_def trackEffect_def preCleanupEffect_def
  postCleanupEffect_def cleanupDepEffect_def run_dep_cleanup_def upd_effect_def dep_get_def
  k_init_def fresh_effect_def Let_def pause_state_def pauseTracking_def resetTracking_def
  pauseScheduling_def resetScheduling_def drain_empty NotDirty_def Dirty_def MaybeDirty_def
  numeral_shared_def numeral_value_def numeral_of.simps key_number_def
  both_run_def push_outside_def triggerEffects_def mark_and_schedule_def
  scheduleEffects_def trigger_effect_def schedule_effect_def dep_keys_def collect_deps_def
  isSymbol_def js_ge_def

text \<open>
  \<open>effect(() => arr.push(1))\<close> on the empty array: its function is called once, the
  array holds the 1, the effect has no deps and no dep of the array exists.
\<close>

lemma push_once:
  "\<exists>s'. effect numeral_shared bodies fuel 0 array_init = Some s' \<and>
        array_view s' = ([0], [Some 1], [], [], True, [], 0) \<and> targetMap s' 0 = None"
  by (simp add: array_eval)

text \<open>
  With \<open>effect(() => arr.length)\<close> made first: the push inside effect 0 marks effect 1,
  whose scheduler runs when the pause is lifted; effect 0 is called once, effect 1 twice. The
  same push outside any effect runs effect 1 once more and returns the new length.
\<close>

lemma length_read_view:
  "map_option array_view length_read = Some ([1], [], [], [], True, [], 0)"
  by (simp add: array_eval)

lemma both_run_view:
  "map_option array_view both_run = Some ([1, 0, 1], [Some 1], [], [], True, [], 0)"
  by (simp add: array_eval)

lemma push_outside_view:
  "map_option (map_prod id array_view) push_outside =
     Some (JNumber 1, [1, 1], [Some 1], [], [], True, [], 0)"
  by (simp add: array_eval)

text \<open>The five methods on \<open>[1, 2, 3]\<close>.\<close>

lemmas method_eval = three_def method_view_def array_eval raw_pop_def raw_shift_def
  raw_unshift_def raw_splice_def move_def delete_trap_def has_trap_def array_delete_def
  get_prop_trap_def untracked_names_def element_val_def

lemma raw_methods:
  "method_view (instrumented numeral_shared idle_scheduler 0 0 (raw_push [4, 5]) three) =
     Some (JNumber 5, [Some 1, Some 2, Some 3, Some 4, Some 5])"
  "method_view (instrumented numeral_shared idle_scheduler 0 0 raw_pop three) =
     Some (JNumber 3, [Some 1, Some 2])"
  "method_view (instrumented numeral_shared idle_scheduler 0 0 raw_shift three) =
     Some (JNumber 1, [Some 2, Some 3])"
  "method_view (instrumented numeral_shared idle_scheduler 0 0 (raw_unshift [7, 8]) three) =
     Some (JNumber 5, [Some 7, Some 8, Some 1, Some 2, Some 3])"
  "method_view (instrumented numeral_shared idle_scheduler 0 0 (raw_splice 1 1 [7, 8]) three) =
     Some (JArray [Some 2], [Some 1, Some 7, Some 8, Some 3])"
  "method_view (instrumented numeral_shared idle_scheduler 0 0 (raw_splice 0 2 []) three) =
     Some (JArray [Some 1, Some 2], [Some 3])"
  by (simp_all add: method_eval)

subsection \<open>Claim about the instrumented array methods\<close>

text \<open>Two more of the concrete runs.\<close>

lemma length_read_state:
  "\<exists>s. length_read = Some s \<and> unsubscribed 0 s \<and> k_effects s 0 = fresh_effect \<and>
       pauseScheduleStack s = 0 \<and> activeEffect s = None"
  by (simp add: array_eval unsubscribed_def)

lemma trigger_later_view:
  "map_option array_view trigger_later = Some ([1, 0, 1, 1], [Some 1], [], [], True, [], 0)"
  by (simp add: array_eval trigger_later_def)

text \<open>
  Claim C2. Take the instrumented method made of any raw method \<open>p\<close> (\<open>push\<close>, \<open>pop\<close>,
  \<open>shift\<close>, \<open>unshift\<close>, \<open>splice\<close> or any other script of reads and writes of the proxy),
  called when the schedule-pause stack is not negative, with schedulers that are balanced.
  The raw method runs to its end with \<open>shouldTrack\<close> false and the pause stack one
  higher; from the call to that end no dep has gained or lost a subscriber and no effect's
  function has been called. The instrumented method then returns what lifting the pause
  returns: it returns whenever no scheduler was queued or an outer pause is in place, and
  whenever it returns, \<open>shouldTrack\<close>, the track stack and the pause stack are what they
  were at the call.

  Consequently, for every array \<open>a\<close>, whatever it holds and whoever subscribes to it, and
  every state of the kernel: when \<open>effect(fn)\<close> makes a new effect \<open>e\<close> whose function is one
  call of an instrumented method of \<open>a\<close> (as \<open>() => a.push(1)\<close> is) and returns, the function
  has been called exactly once, \<open>e\<close> is in the map of no dep and its scheduler is not
  queued, \<open>e\<close> is not dirty, and the pause state and the active effect are as before. The
  call returns whenever an outer pause is in place, or no scheduler is queued and no
  effect has read the array. And afterwards no \<open>trigger\<close>, on any target, reaches \<open>e\<close>: it
  leaves \<open>e\<close> out of reach, with its fields unchanged and its function not called again.
\<close>

theorem instrumented_suspends_and_restores:
  assumes "0 \<le> pauseScheduleStack s" and "balanced sched"
  shows "(\<exists>res s2.
      run_script sh sched fuel t p (pauseScheduling (pauseTracking s)) = Some (res, s2) \<and>
      \<not> shouldTrack s2 \<and> pauseScheduleStack s2 = pauseScheduleStack s + 1 \<and>
      same_graph s s2 \<and> runs s2 = runs s \<and>
      instrumented sh sched fuel t p s =
        map_option (\<lambda>s3. (res, resetTracking s3)) (resetScheduling sched fuel s2) \<and>
      (queueEffectSchedulers s2 = [] \<or> 0 < pauseScheduleStack s \<longrightarrow>
         instrumented sh sched fuel t p s \<noteq> None) \<and>
      (\<forall>r s'. instrumented sh sched fuel t p s = Some (r, s') \<longrightarrow>
         r = res \<and> pause_state s' = pause_state s)) \<and>
    (unsubscribed e u \<and> k_effects u e = fresh_effect \<and> body e = [Call a q] \<longrightarrow>
       (\<forall>u'. effect sh' body n e u = Some u' \<longrightarrow>
          count_list (runs u') e = count_list (runs u) e + 1 \<and> unsubscribed e u' \<and>
          k_effects u' e = fresh_effect\<lparr>ef_dirtyLevel := NotDirty, ef_trackId := 1\<rparr> \<and>
          pause_state u' = pause_state u \<and> activeEffect u' = activeEffect u) \<and>
       (0 < pauseScheduleStack u \<or> (queueEffectSchedulers u = [] \<and> targetMap u a = None) \<longrightarrow>
          effect sh' body n e u \<noteq> None)) \<and>
    (unsubscribed e v \<and> not_tracking e v \<and>
     trigger sh' (scheduler_of sh' body m) m b type key newLength v = Some v' \<longrightarrow>
       spared e v v')"
proof -
  from instrumented_suspends_aux[OF assms(1), of sh sched fuel t p] obtain res s2 where
    r: "run_script sh sched fuel t p (pauseScheduling (pauseTracking s)) = Some (res, s2)" and
    f: "\<not> shouldTrack s2" "pauseScheduleStack s2 = pauseScheduleStack s + 1"
       "same_graph s s2" "runs s2 = runs s" and
    i: "instrumented sh sched fuel t p s =
        map_option (\<lambda>s3. (res, resetTracking s3)) (resetScheduling sched fuel s2)"
    by blast
  have tot: "queueEffectSchedulers s2 = [] \<or> 0 < pauseScheduleStack s \<longrightarrow>
         instrumented sh sched fuel t p s \<noteq> None"
    using resetScheduling_returns[of s2 sched fuel] f(2) by (auto simp: i)
  have bal: "instrumented sh sched fuel t p s = Some (r, s') \<longrightarrow>
         r = res \<and> pause_state s' = pause_state s" for r s'
    using instrumented_balanced[OF assms(2), of sh fuel t p s r s'] by (auto simp: i)
  have A: "\<exists>res s2.
      run_script sh sched fuel t p (pauseScheduling (pauseTracking s)) = Some (res, s2) \<and>
      \<not> shouldTrack s2 \<and> pauseScheduleStack s2 = pauseScheduleStack s + 1 \<and>
      same_graph s s2 \<and> runs s2 = runs s \<and>
      instrumented sh sched fuel t p s =
        map_option (\<lambda>s3. (res, resetTracking s3)) (resetScheduling sched fuel s2) \<and>
      (queueEffectSchedulers s2 = [] \<or> 0 < pauseScheduleStack s \<longrightarrow>
         instrumented sh sched fuel t p s \<noteq> None) \<and>
      (\<forall>r s'. instrumented sh sched fuel t p s = Some (r, s') \<longrightarrow>
         r = res \<and> pause_state s' = pause_state s)"
    using r f i tot bal by blast
  have B: "unsubscribed e u \<and> k_effects u e = fresh_effect \<and> body e = [Call a q] \<longrightarrow>
       (\<forall>u'. effect sh' body n e u = Some u' \<longrightarrow>
          count_list (runs u') e = count_list (runs u) e + 1 \<and> unsubscribed e u' \<and>
          k_effects u' e = fresh_effect\<lparr>ef_dirtyLevel := NotDirty, ef_trackId := 1\<rparr> \<and>
          pause_state u' = pause_state u \<and> activeEffect u' = activeEffect u) \<and>
       (0 < pauseScheduleStack u \<or> (queueEffectSchedulers u = [] \<and> targetMap u a = None) \<longrightarrow>
          effect sh' body n e u \<noteq> None)"
  proof (intro impI conjI allI)
    fix u'
    assume h: "unsubscribed e u \<and> k_effects u e = fresh_effect \<and> body e = [Call a q]"
      and r: "effect sh' body n e u = Some u'"
    have c: "list_all is_call (body e)" using h by simp
    from effect_calls_once[OF _ _ c r] h
    show "count_list (runs u') e = count_list (runs u) e + 1" "unsubscribed e u'"
      "k_effects u' e = fresh_effect\<lparr>ef_dirtyLevel := NotDirty, ef_trackId := 1\<rparr>"
      "pause_state u' = pause_state u" "activeEffect u' = activeEffect u"
      by simp_all
  next
    assume h: "unsubscribed e u \<and> k_effects u e = fresh_effect \<and> body e = [Call a q]"
      and c: "0 < pauseScheduleStack u \<or> (queueEffectSchedulers u = [] \<and> targetMap u a = None)"
    from effect_call_returns[OF _ _ c, where e = e and body = body and p = q and sh = sh' and n = n] h
    show "effect sh' body n e u \<noteq> None" by simp
  qed
  have C: "unsubscribed e v \<and> not_tracking e v \<and>
     trigger sh' (scheduler_of sh' body m) m b type key newLength v = Some v' \<longrightarrow>
       spared e v v'"
  proof
    assume h: "unsubscribed e v \<and> not_tracking e v \<and>
     trigger sh' (scheduler_of sh' body m) m b type key newLength v = Some v'"
    have sp: "spares e (scheduler_of sh' body m)" by (rule scheduler_of_spares)
    from trigger_spared[OF sp] h show "spared e v v'" by blast
  qed
  show ?thesis using A B C by blast
qed

text \<open>
  The theorem at \<open>arr.push(1)\<close> called outside any effect while effect 1 reads
  \<open>arr.length\<close>; at \<open>effect(() => arr.push(1))\<close> made while effect 1 reads \<open>arr.length\<close>,
  where the functions run in the order 1, 0, 1, and at a later trigger on the array, which
  runs only effect 1; and at the same effect on the empty array that nobody reads.
\<close>

theorem instrumented_suspends_and_restores_witness:
  "\<exists>s. length_read = Some s \<and> 0 \<le> pauseScheduleStack s \<and>
       balanced (scheduler_of numeral_shared bodies (Suc 0)) \<and>
       (\<exists>res s'. instrumented numeral_shared (scheduler_of numeral_shared bodies (Suc 0)) (Suc 0) 0
                   (raw_push [1]) s = Some (res, s') \<and>
                 res = JNumber 1 \<and> runs s' = [1, 1] \<and> arrays s' 0 = [Some 1] \<and>
                 pause_state s' = pause_state s) \<and>
       unsubscribed 0 s \<and> k_effects s 0 = fresh_effect \<and> bodies 0 = [Call 0 (raw_push [1])] \<and>
       (\<exists>s'. effect numeral_shared bodies (Suc (Suc 0)) 0 s = Some s' \<and> runs s' = [1, 0, 1] \<and>
             count_list (runs s') 0 = count_list (runs s) 0 + 1 \<and>
             unsubscribed 0 s' \<and> not_tracking 0 s' \<and>
             (\<exists>s''. trigger numeral_shared (scheduler_of numeral_shared bodies (Suc 0)) (Suc 0) 0 ADD
                       (KStr ''1'') (Num 5) s' = Some s'' \<and>
                    runs s'' = [1, 0, 1, 1] \<and> spared 0 s' s'')) \<and>
       effect numeral_shared bodies 0 0 array_init \<noteq> None"
proof -
  let ?sched = "scheduler_of numeral_shared bodies (Suc 0)"
  obtain s where s: "length_read = Some s" and u: "unsubscribed 0 s"
    and k: "k_effects s 0 = fresh_effect" and p0: "pauseScheduleStack s = 0"
    and ae: "activeEffect s = None"
    using length_read_state by blast
  have p: "0 \<le> pauseScheduleStack s" using p0 by simp
  have b: "balanced ?sched" by (rule scheduler_of_balanced)
  have bd: "bodies 0 = [Call 0 (raw_push [1])]" by (simp add: bodies_def)
  obtain res s1 where
    i: "instrumented numeral_shared ?sched (Suc 0) 0 (raw_push [1]) s = Some (res, s1)" and
    v: "res = JNumber 1" "array_view s1 = ([1, 1], [Some 1], [], [], True, [], 0)"
    using push_outside_view by (auto simp: push_outside_def s)
  obtain s2 where
    e2: "effect numeral_shared bodies (Suc (Suc 0)) 0 s = Some s2" and
    v2: "array_view s2 = ([1, 0, 1], [Some 1], [], [], True, [], 0)"
    using both_run_view by (auto simp: both_run_def s)
  obtain s3 where
    e3: "trigger numeral_shared ?sched (Suc 0) 0 ADD (KStr ''1'') (Num 5) s2 = Some s3" and
    v3: "array_view s3 = ([1, 0, 1, 1], [Some 1], [], [], True, [], 0)"
    using trigger_later_view by (auto simp: trigger_later_def both_run_def s e2)
  have i0: "unsubscribed 0 array_init \<and> k_effects array_init 0 = fresh_effect \<and>
            bodies 0 = [Call 0 (raw_push [1])]"
    by (simp add: unsubscribed_def array_init_def k_init_def dep_get_def bodies_def)
  have c0: "0 < pauseScheduleStack array_init \<or>
            (queueEffectSchedulers array_init = [] \<and> targetMap array_init 0 = None)"
    by (simp add: array_init_def k_init_def)
  note T = instrumented_suspends_and_restores[OF p b, where sh = numeral_shared and fuel = "Suc 0"
      and t = 0 and p = "raw_push [1]" and body = bodies and sh' = numeral_shared and e = 0
      and a = 0 and q = "raw_push [1]" and m = "Suc 0" and b = 0 and type = ADD
      and key = "KStr ''1''" and newLength = "Num 5"]
  from T[where u = s and n = "Suc (Suc 0)" and v = s2 and v' = s3]
  obtain res0 where
    "\<forall>r s'. instrumented numeral_shared ?sched (Suc 0) 0 (raw_push [1]) s = Some (r, s') \<longrightarrow>
       r = res0 \<and> pause_state s' = pause_state s"
    by blast
  with i have A: "pause_state s1 = pause_state s" by blast
  from T[where u = s and n = "Suc (Suc 0)" and v = s2 and v' = s3] u k bd e2
  have B: "count_list (runs s2) 0 = count_list (runs s) 0 + 1" "unsubscribed 0 s2"
    "activeEffect s2 = activeEffect s"
    by blast+
  have nt: "not_tracking 0 s2" using B(3) ae by (simp add: not_tracking_def)
  from T[where u = s and n = "Suc (Suc 0)" and v = s2 and v' = s3] B(2) nt e3
  have C: "spared 0 s2 s3" by blast
  from T[where u = array_init and n = 0 and v = s2 and v' = s3] i0 c0
  have D: "effect numeral_shared bodies 0 0 array_init \<noteq> None" by blast
  have r1: "runs s1 = [1, 1]" "arrays s1 0 = [Some 1]" using v(2) by (simp_all add: array_view_def)
  have r2: "runs s2 = [1, 0, 1]" using v2 by (simp add: array_view_def)
  have r3: "runs s3 = [1, 0, 1, 1]" using v3 by (simp add: array_view_def)
  show ?thesis
    using s p b i v(1) r1 A u k bd e2 r2 B(1,2) nt e3 r3 C D by blast
qed

end
